theory Spec2Isabelle
  imports Main "HOL-Library.Monad_Syntax" "HOL-Library.Signed_Division" "HOL-Library.Multiset"
begin

section \<open>Conventions\<close>

text \<open>
  The program is a single C file, \<^verbatim>\<open>mst.c\<close>. Its \<^verbatim>\<open>int\<close> values are modelled as
  \<^typ>\<open>int\<close>: every index, count and rank of the program stays far inside the 32-bit
  range for any graph that fits in memory, and weights are only compared and copied.
  C's \<^verbatim>\<open>/\<close> and \<^verbatim>\<open>%\<close> truncate towards zero; they are \<open>sdiv\<close> and \<open>smod\<close>.
  An array is a list; reading or writing outside of it is undefined behaviour in C and
  the value \<open>None\<close> here, as is every other way the program can go wrong
  (a null pointer, a recursion that never returns).
\<close>

definition UNSET_ELEMENT :: int where
  "UNSET_ELEMENT = - 1"

definition INT_MAX :: int where
  "INT_MAX = 2147483647"

definition arr_get :: "'a list \<Rightarrow> int \<Rightarrow> 'a option" where
  "arr_get xs i = (if 0 \<le> i \<and> i < int (length xs) then Some (xs ! nat i) else None)"

definition arr_set :: "'a list \<Rightarrow> int \<Rightarrow> 'a \<Rightarrow> 'a list option" where
  "arr_set xs i x = (if 0 \<le> i \<and> i < int (length xs) then Some (xs[nat i := x]) else None)"

section \<open>Disjoint-set forest\<close>

text \<open>
  \<^verbatim>\<open>struct Set { int elements; int* canonicalElements; int* rank; }\<close>.
  The fields \<^verbatim>\<open>elements\<close> and \<^verbatim>\<open>rank\<close> are \<open>s_elements\<close> and \<open>ranks\<close> here.
\<close>

record Set_t =
  s_elements :: int
  canonicalElements :: "int list"
  ranks :: "int list"

text \<open>\<^verbatim>\<open>newSet\<close>: every parent slot is \<^verbatim>\<open>UNSET_ELEMENT\<close> (memset with -1), every rank 0.\<close>

definition newSet :: "int \<Rightarrow> Set_t" where
  "newSet n = \<lparr> s_elements = n,
                canonicalElements = replicate (nat n) UNSET_ELEMENT,
                ranks = replicate (nat n) 0 \<rparr>"

text \<open>
  \<^verbatim>\<open>findSet\<close> is recursive and writes the parent slot on the way back. On a cyclic parent
  array the C recursion never returns; the model is a partial function with value
  \<open>None\<close> there.
\<close>

partial_function (option) findSet :: "Set_t \<Rightarrow> int \<Rightarrow> (int \<times> Set_t) option" where
  "findSet s vertex =
     (case arr_get (canonicalElements s) vertex of
        None \<Rightarrow> None
      | Some c \<Rightarrow>
          if c = UNSET_ELEMENT then Some (vertex, s)
          else do {
            (r, s') \<leftarrow> findSet s c;
            ce \<leftarrow> arr_set (canonicalElements s') vertex r;
            Some (r, s'\<lparr>canonicalElements := ce\<rparr>)
          })"

declare findSet.simps [code]

definition unionSet :: "Set_t \<Rightarrow> int \<Rightarrow> int \<Rightarrow> Set_t option" where
  "unionSet s parent1 parent2 =
     (case findSet s parent1 of
        None \<Rightarrow> None
      | Some (root1, s1) \<Rightarrow>
     (case findSet s1 parent2 of
        None \<Rightarrow> None
      | Some (root2, s2) \<Rightarrow>
     (case (arr_get (ranks s2) root1, arr_get (ranks s2) root2) of
        (Some rank1, Some rank2) \<Rightarrow>
          if root1 = root2 then Some s2
          else if rank1 < rank2 then
            map_option (\<lambda>ce. s2\<lparr>canonicalElements := ce\<rparr>)
              (arr_set (canonicalElements s2) root1 root2)
          else if rank1 > rank2 then
            map_option (\<lambda>ce. s2\<lparr>canonicalElements := ce\<rparr>)
              (arr_set (canonicalElements s2) root2 root1)
          else
            (case arr_set (canonicalElements s2) root1 root2 of
               None \<Rightarrow> None
             | Some ce \<Rightarrow>
                 map_option (\<lambda>rk. s2\<lparr>canonicalElements := ce, ranks := rk\<rparr>)
                   (arr_set (ranks s2) root2 (rank1 + 1)))
      | _ \<Rightarrow> None)))"

text \<open>
  What the forest means. \<open>root_of ps v r\<close>: following the parent slots \<open>ps\<close> from \<open>v\<close>
  ends at the root \<open>r\<close>, the canonical element of \<open>v\<close>. \<open>on_path ps v u\<close>: the element
  \<open>u\<close> is met on the way (\<open>v\<close> and the root included). A forest is well formed when every
  element has a root and there is a rank slot for every element.
\<close>

inductive root_of :: "int list \<Rightarrow> int \<Rightarrow> int \<Rightarrow> bool" for ps :: "int list" where
  root: "arr_get ps v = Some UNSET_ELEMENT \<Longrightarrow> root_of ps v v"
| step: "arr_get ps v = Some p \<Longrightarrow> p \<noteq> UNSET_ELEMENT \<Longrightarrow> root_of ps p r \<Longrightarrow> root_of ps v r"

code_pred root_of .

inductive on_path :: "int list \<Rightarrow> int \<Rightarrow> int \<Rightarrow> bool" for ps :: "int list" where
  here: "arr_get ps v = Some p \<Longrightarrow> on_path ps v v"
| further: "arr_get ps v = Some p \<Longrightarrow> p \<noteq> UNSET_ELEMENT \<Longrightarrow> on_path ps p u \<Longrightarrow> on_path ps v u"

code_pred on_path .

definition wf_set :: "Set_t \<Rightarrow> bool" where
  "wf_set s \<longleftrightarrow> length (ranks s) = length (canonicalElements s)
              \<and> (\<forall>v. 0 \<le> v \<and> v < int (length (canonicalElements s))
                     \<longrightarrow> (\<exists>r. root_of (canonicalElements s) v r))"

section \<open>Scattering the edge list\<close>

text \<open>An edge is three consecutive ints of the flat edge list: from, to, weight.\<close>

type_synonym edge = "int \<times> int \<times> int"

definition e_from :: "edge \<Rightarrow> int" where "e_from e = fst e"
definition e_to :: "edge \<Rightarrow> int" where "e_to e = fst (snd e)"
definition e_weight :: "edge \<Rightarrow> int" where "e_weight e = snd (snd e)"

datatype error = UnsupportedTopology | DivisionByZero

text \<open>
  \<^verbatim>\<open>scatterEdgeList\<close> as one rank of a cohort of \<open>csize\<close> processes (\<^verbatim>\<open>size\<close> in the
  source) runs it; \<open>edgeList\<close> is the buffer of the root and the caller passes the chunk
  size in \<^verbatim>\<open>*elementsPart\<close>. \<^verbatim>\<open>MPI_Scatter\<close> hands rank \<open>r\<close> the \<open>elementsPart\<close> edges at
  offset \<open>r * elementsPart\<close> of the root's buffer, whether or not the buffer is that long:
  a slot of the received chunk that lies behind the end of the buffer is \<open>None\<close>, it holds
  no edge of the graph, and to use it is an error as for every uninitialised slot. The
  last rank then replaces the count by the remainder (a remainder by zero traps), and
  only then every rank checks the size/process combination. The result is the received
  chunk and the new count.
\<close>

definition scatterEdgeList ::
  "int \<Rightarrow> int \<Rightarrow> edge list \<Rightarrow> int \<Rightarrow> int \<Rightarrow> error + (edge option list \<times> int)" where
  "scatterEdgeList rank csize edgeList elements elementsPart =
     (let edgeListPart = map (\<lambda>j. arr_get edgeList (rank * elementsPart + j)) [0 .. elementsPart - 1]
      in if rank = csize - 1 \<and> elementsPart = 0 then Inl DivisionByZero
         else
           let elementsPart' =
                 (if rank = csize - 1 \<and> elements smod elementsPart \<noteq> 0
                  then elements smod elementsPart else elementsPart)
           in if elements sdiv 2 + 1 < csize \<and> elements \<noteq> csize then Inl UnsupportedTopology
              else Inr (edgeListPart, elementsPart'))"

text \<open>The chunk csize both callers compute: \<^verbatim>\<open>(elements + size - 1) / size\<close>.\<close>

definition chunkSize :: "int \<Rightarrow> int \<Rightarrow> int" where
  "chunkSize elements csize = (elements + csize - 1) sdiv csize"

section \<open>Binary min-heap\<close>

text \<open>
  Memory that \<^verbatim>\<open>malloc\<close> or \<^verbatim>\<open>realloc\<close> hands out is not initialised: a slot of such
  an array is \<open>None\<close> until the program writes it, and reading it before is an error.
\<close>

definition mem_get :: "'a option list \<Rightarrow> int \<Rightarrow> 'a option" where
  "mem_get xs i = (case arr_get xs i of Some (Some x) \<Rightarrow> Some x | _ \<Rightarrow> None)"

definition mem_set :: "'a option list \<Rightarrow> int \<Rightarrow> 'a \<Rightarrow> 'a option list option" where
  "mem_set xs i x = arr_set xs i (Some x)"

lemma mem_get_range: "mem_get xs i = Some x \<Longrightarrow> 0 \<le> i \<and> i < int (length xs)"
  by (auto simp: mem_get_def arr_get_def split: if_splits option.splits)

text \<open>
  \<^verbatim>\<open>struct BinaryHeapElement { int vertex; int via; int weight; }\<close> and
  \<^verbatim>\<open>struct BinaryMinHeap { int alloced; int size; int* positions;
  BinaryHeapElement* elements; }\<close>, the fields prefixed.
\<close>

record BinaryHeapElement =
  be_vertex :: int
  be_via :: int
  be_weight :: int

record BinaryMinHeap =
  bh_alloced :: int
  bh_size :: int
  bh_positions :: "int option list"
  bh_elements :: "BinaryHeapElement option list"

text \<open>
  \<^verbatim>\<open>newBinaryMinHeap\<close> followed by the \<^verbatim>\<open>realloc\<close> of \<^verbatim>\<open>positions\<close> to \<open>n\<close> slots that
  \<^verbatim>\<open>mstPrimBinary\<close> does right after it.
\<close>

definition newBinaryMinHeap :: "int \<Rightarrow> BinaryMinHeap" where
  "newBinaryMinHeap n = \<lparr> bh_alloced = 4, bh_size = 0,
                           bh_positions = replicate (nat n) None,
                           bh_elements = replicate 4 None \<rparr>"

definition swapBinaryHeapElement :: "BinaryMinHeap \<Rightarrow> int \<Rightarrow> int \<Rightarrow> BinaryMinHeap option" where
  "swapBinaryHeapElement heap position1 position2 = do {
     e1 \<leftarrow> mem_get (bh_elements heap) position1;
     pos1 \<leftarrow> mem_set (bh_positions heap) (be_vertex e1) position2;
     e2 \<leftarrow> mem_get (bh_elements heap) position2;
     pos2 \<leftarrow> mem_set pos1 (be_vertex e2) position1;
     els1 \<leftarrow> mem_set (bh_elements heap) position1 e2;
     els2 \<leftarrow> mem_set els1 position2 e1;
     Some (heap\<lparr>bh_positions := pos2, bh_elements := els2\<rparr>)
   }"

lemma swapBinaryHeapElement_size:
  "swapBinaryHeapElement heap p q = Some heap' \<Longrightarrow> bh_size heap' = bh_size heap"
  by (auto simp: swapBinaryHeapElement_def split: bind_splits)

text \<open>
  \<^verbatim>\<open>heapifyBinaryMinHeap\<close>, the sift-up loop. The parent of position 0 is
  \<open>(0 - 1) / 2 = 0\<close> in C, so the loop stops there on the comparison of the root with
  itself.
\<close>

function heapifyBinaryMinHeap :: "BinaryMinHeap \<Rightarrow> int \<Rightarrow> BinaryMinHeap option" where
  "heapifyBinaryMinHeap heap position =
     (if position \<ge> 0 then
        (let positionParent = (position - 1) sdiv 2 in
         case (mem_get (bh_elements heap) position, mem_get (bh_elements heap) positionParent) of
           (Some e, Some ep) \<Rightarrow>
             if be_weight e < be_weight ep then
               (case swapBinaryHeapElement heap position positionParent of
                  None \<Rightarrow> None
                | Some heap' \<Rightarrow> heapifyBinaryMinHeap heap' positionParent)
             else Some heap
         | _ \<Rightarrow> None)
      else Some heap)"
  by pat_completeness auto
termination
  apply (relation "measure (\<lambda>(heap, position). nat position)")
   apply simp
  subgoal premises prems for heap position positionParent x e y ep heap'
    using prems apply -
    apply (cases "position = 0")
     apply (clarsimp simp: signed_divide_int_def)
     apply (metis less_irrefl option.inject)
    apply (clarsimp simp: signed_divide_int_def sgn_if)
    apply linarith
    done
  done

text \<open>
  \<^verbatim>\<open>heapifyDownBinaryMinHeap\<close>, the sift-down loop. The source compares the child
  positions with \<^verbatim>\<open><= heap->size\<close>, so the slot just behind the heap is read too.
  In C the right operand of \<^verbatim>\<open>&&\<close> is evaluated only when the left one holds.
\<close>

function heapifyDownBinaryMinHeap :: "BinaryMinHeap \<Rightarrow> int \<Rightarrow> BinaryMinHeap option" where
  "heapifyDownBinaryMinHeap heap position =
     (if position < bh_size heap then
        (let positionLeft = (position + 1) * 2 - 1;
             positionRight = (position + 1) * 2
         in
         case mem_get (bh_elements heap) position of
           None \<Rightarrow> None
         | Some e \<Rightarrow>
         (case (if positionLeft \<le> bh_size heap
                then map_option (\<lambda>el. if be_weight el < be_weight e
                                        then (positionLeft, el) else (position, e))
                       (mem_get (bh_elements heap) positionLeft)
                else Some (position, e)) of
            None \<Rightarrow> None
          | Some (positionSmallest1, es1) \<Rightarrow>
         (case (if positionRight \<le> bh_size heap
                then map_option (\<lambda>er. if be_weight er < be_weight es1
                                        then (positionRight, er) else (positionSmallest1, es1))
                       (mem_get (bh_elements heap) positionRight)
                else Some (positionSmallest1, es1)) of
            None \<Rightarrow> None
          | Some (positionSmallest, es) \<Rightarrow>
              if be_weight e > be_weight es then
                (case swapBinaryHeapElement heap position positionSmallest of
                   None \<Rightarrow> None
                 | Some heap' \<Rightarrow> heapifyDownBinaryMinHeap heap' positionSmallest)
              else Some heap)))
      else Some heap)"
  by pat_completeness auto
termination
  apply (relation "measure (\<lambda>(heap, position). nat (bh_size heap + 1 - position))")
   apply simp
  subgoal premises prems
    using prems apply -
    apply (frule mem_get_range)
    apply (frule swapBinaryHeapElement_size)
    apply (auto split: if_splits)
    done
  done

text \<open>\<^verbatim>\<open>pushBinaryMinHeap\<close>; \<^verbatim>\<open>realloc\<close> doubles the array with uninitialised slots.\<close>

definition pushBinaryMinHeap ::
  "BinaryMinHeap \<Rightarrow> int \<Rightarrow> int \<Rightarrow> int \<Rightarrow> BinaryMinHeap option" where
  "pushBinaryMinHeap heap vertex via weight = do {
     let heap1 = (if bh_size heap = bh_alloced heap
                  then heap\<lparr>bh_elements := bh_elements heap @ replicate (nat (bh_alloced heap)) None,
                            bh_alloced := 2 * bh_alloced heap\<rparr>
                  else heap);
     els \<leftarrow> mem_set (bh_elements heap1) (bh_size heap1)
              \<lparr>be_vertex = vertex, be_via = via, be_weight = weight\<rparr>;
     pos \<leftarrow> mem_set (bh_positions heap1) vertex (bh_size heap1);
     heap2 \<leftarrow> heapifyBinaryMinHeap (heap1\<lparr>bh_elements := els, bh_positions := pos\<rparr>) (bh_size heap1);
     Some (heap2\<lparr>bh_size := bh_size heap2 + 1\<rparr>)
   }"


text \<open>
  \<^verbatim>\<open>popBinaryMinHeap\<close>; the result is the heap and the three output parameters
  \<^verbatim>\<open>(*vertex, *via, *weight)\<close>.
\<close>

definition popBinaryMinHeap :: "BinaryMinHeap \<Rightarrow> (BinaryMinHeap \<times> int \<times> int \<times> int) option" where
  "popBinaryMinHeap heap = do {
     e0 \<leftarrow> mem_get (bh_elements heap) 0;
     pos1 \<leftarrow> mem_set (bh_positions heap) (be_vertex e0) UNSET_ELEMENT;
     el \<leftarrow> mem_get (bh_elements heap) (bh_size heap - 1);
     els \<leftarrow> mem_set (bh_elements heap) 0 el;
     pos2 \<leftarrow> mem_set pos1 (be_vertex el) 0;
     heap' \<leftarrow> heapifyDownBinaryMinHeap
                (heap\<lparr>bh_positions := pos2, bh_elements := els, bh_size := bh_size heap - 1\<rparr>) 0;
     Some (heap', be_vertex e0, be_via e0, be_weight e0)
   }"

section \<open>Fibonacci min-heap\<close>

text \<open>
  The nodes of the Fibonacci heap are allocated one by one and linked by pointers. The
  model keeps them in an explicit memory \<open>fh_mem\<close>: an address is an index into it, a
  pointer is an address or \<open>None\<close> for \<^verbatim>\<open>NULL\<close>, \<^verbatim>\<open>malloc\<close> appends a cell and
  \<^verbatim>\<open>free\<close> empties it. Dereferencing \<^verbatim>\<open>NULL\<close> or a freed cell is an error.
  \<^verbatim>\<open>struct FibonacciHeapElement { bool marked; int childrens; int vertex; int via;
  int weight; FibonacciHeapElement *parent, *child, *left, *right; }\<close>.
\<close>

type_synonym pointer = "nat option"

record FibonacciHeapElement =
  fe_marked :: bool
  fe_childrens :: int
  fe_vertex :: int
  fe_via :: int
  fe_weight :: int
  fe_parent :: pointer
  fe_child :: pointer
  fe_left :: pointer
  fe_right :: pointer

type_synonym memory = "FibonacciHeapElement option list"

definition deref :: "memory \<Rightarrow> pointer \<Rightarrow> FibonacciHeapElement option" where
  "deref m p = (case p of None \<Rightarrow> None | Some a \<Rightarrow> if a < length m then m ! a else None)"

definition upd :: "memory \<Rightarrow> pointer \<Rightarrow> (FibonacciHeapElement \<Rightarrow> FibonacciHeapElement)
                     \<Rightarrow> memory option" where
  "upd m p f = (case p of
                  None \<Rightarrow> None
                | Some a \<Rightarrow> (case deref m p of
                              None \<Rightarrow> None
                            | Some x \<Rightarrow> Some (m[a := Some (f x)])))"

definition get_parent :: "memory \<Rightarrow> pointer \<Rightarrow> pointer option" where
  "get_parent m p = map_option fe_parent (deref m p)"
definition get_child :: "memory \<Rightarrow> pointer \<Rightarrow> pointer option" where
  "get_child m p = map_option fe_child (deref m p)"
definition get_left :: "memory \<Rightarrow> pointer \<Rightarrow> pointer option" where
  "get_left m p = map_option fe_left (deref m p)"
definition get_right :: "memory \<Rightarrow> pointer \<Rightarrow> pointer option" where
  "get_right m p = map_option fe_right (deref m p)"
definition get_weight :: "memory \<Rightarrow> pointer \<Rightarrow> int option" where
  "get_weight m p = map_option fe_weight (deref m p)"
definition get_childrens :: "memory \<Rightarrow> pointer \<Rightarrow> int option" where
  "get_childrens m p = map_option fe_childrens (deref m p)"
definition get_marked :: "memory \<Rightarrow> pointer \<Rightarrow> bool option" where
  "get_marked m p = map_option fe_marked (deref m p)"

definition set_parent :: "memory \<Rightarrow> pointer \<Rightarrow> pointer \<Rightarrow> memory option" where
  "set_parent m p q = upd m p (\<lambda>x. x\<lparr>fe_parent := q\<rparr>)"
definition set_child :: "memory \<Rightarrow> pointer \<Rightarrow> pointer \<Rightarrow> memory option" where
  "set_child m p q = upd m p (\<lambda>x. x\<lparr>fe_child := q\<rparr>)"
definition set_left :: "memory \<Rightarrow> pointer \<Rightarrow> pointer \<Rightarrow> memory option" where
  "set_left m p q = upd m p (\<lambda>x. x\<lparr>fe_left := q\<rparr>)"
definition set_right :: "memory \<Rightarrow> pointer \<Rightarrow> pointer \<Rightarrow> memory option" where
  "set_right m p q = upd m p (\<lambda>x. x\<lparr>fe_right := q\<rparr>)"
definition set_marked :: "memory \<Rightarrow> pointer \<Rightarrow> bool \<Rightarrow> memory option" where
  "set_marked m p b = upd m p (\<lambda>x. x\<lparr>fe_marked := b\<rparr>)"

text \<open>
  \<^verbatim>\<open>struct FibonacciMinHeap { int size; FibonacciHeapElement* minimum;
  FibonacciHeapElement** positions; }\<close>, together with the memory its nodes live in.
\<close>

record FibonacciMinHeap =
  fh_size :: int
  fh_minimum :: pointer
  fh_positions :: "pointer option list"
  fh_mem :: memory

text \<open>
  \<^verbatim>\<open>newFibonacciMinHeap\<close> on the compound literal of \<^verbatim>\<open>mstPrimFibonacci\<close>
  (\<^verbatim>\<open>minimum = NULL\<close>), followed by the \<^verbatim>\<open>realloc\<close> of \<^verbatim>\<open>positions\<close> to \<open>n\<close> slots.
\<close>

definition newFibonacciMinHeap :: "int \<Rightarrow> FibonacciMinHeap" where
  "newFibonacciMinHeap n = \<lparr> fh_size = 0, fh_minimum = None,
                              fh_positions = replicate (nat n) None, fh_mem = [] \<rparr>"

text \<open>\<^verbatim>\<open>insertFibonacciMinHeap\<close>: splice the element into the root list left of the minimum.\<close>

definition insertFibonacciMinHeap :: "FibonacciMinHeap \<Rightarrow> pointer \<Rightarrow> FibonacciMinHeap option" where
  "insertFibonacciMinHeap heap element =
     (if fh_minimum heap = None then Some (heap\<lparr>fh_minimum := element\<rparr>)
      else do {
        endHeap \<leftarrow> get_left (fh_mem heap) (fh_minimum heap);
        m1 \<leftarrow> set_left (fh_mem heap) (fh_minimum heap) element;
        m2 \<leftarrow> set_left m1 element endHeap;
        m3 \<leftarrow> set_right m2 endHeap element;
        m4 \<leftarrow> set_right m3 element (fh_minimum heap);
        wmin \<leftarrow> get_weight m4 (fh_minimum heap);
        we \<leftarrow> get_weight m4 element;
        Some (heap\<lparr>fh_mem := m4,
                   fh_minimum := (if wmin > we then element else fh_minimum heap)\<rparr>)
      })"

text \<open>\<^verbatim>\<open>pushFibonacciMinHeap\<close> with \<^verbatim>\<open>newFibonacciHeapElement\<close> inlined.\<close>

definition pushFibonacciMinHeap ::
  "FibonacciMinHeap \<Rightarrow> int \<Rightarrow> int \<Rightarrow> int \<Rightarrow> FibonacciMinHeap option" where
  "pushFibonacciMinHeap heap vertex via weight = do {
     let element = Some (length (fh_mem heap));
     let m = fh_mem heap @
               [Some \<lparr> fe_marked = False, fe_childrens = 0, fe_vertex = vertex, fe_via = via,
                       fe_weight = weight, fe_parent = None, fe_child = None,
                       fe_left = element, fe_right = element \<rparr>];
     pos \<leftarrow> mem_set (fh_positions heap) vertex element;
     heap1 \<leftarrow> insertFibonacciMinHeap (heap\<lparr>fh_mem := m, fh_positions := pos\<rparr>) element;
     Some (heap1\<lparr>fh_size := fh_size heap1 + 1\<rparr>)
   }"

text \<open>
  \<^verbatim>\<open>cutFibonacciMinHeap\<close>. Each C statement reads the memory as the statements before
  it left it. The recursion follows parent pointers and is a partial function.
\<close>

partial_function (option) cutFibonacciMinHeap ::
  "FibonacciMinHeap \<Rightarrow> pointer \<Rightarrow> FibonacciMinHeap option" where
  "cutFibonacciMinHeap heap element = do {
     parent \<leftarrow> get_parent (fh_mem heap) element;
     m1 \<leftarrow> (if parent \<noteq> None
            then upd (fh_mem heap) parent (\<lambda>x. x\<lparr>fe_childrens := fe_childrens x - 1\<rparr>)
            else Some (fh_mem heap));
     r \<leftarrow> get_right m1 element;
     m2 \<leftarrow> (if r = element then set_child m1 parent None
            else do {
              l \<leftarrow> get_left m1 element;
              ma \<leftarrow> set_left m1 r l;
              l' \<leftarrow> get_left ma element;
              r' \<leftarrow> get_right ma element;
              mb \<leftarrow> set_right ma l' r';
              c \<leftarrow> get_child mb parent;
              if c = element then do {
                r'' \<leftarrow> get_right mb element;
                set_child mb parent r''
              } else Some mb
            });
     heap1 \<leftarrow> insertFibonacciMinHeap (heap\<lparr>fh_mem := m2\<rparr>) element;
     m3 \<leftarrow> set_parent (fh_mem heap1) element None;
     pp \<leftarrow> get_parent m3 parent;
     if pp \<noteq> None then do {
       mk \<leftarrow> get_marked m3 parent;
       if mk then do {
         heap2 \<leftarrow> cutFibonacciMinHeap (heap1\<lparr>fh_mem := m3\<rparr>) parent;
         m4 \<leftarrow> set_marked (fh_mem heap2) parent False;
         Some (heap2\<lparr>fh_mem := m4\<rparr>)
       } else do {
         m4 \<leftarrow> set_marked m3 parent True;
         Some (heap1\<lparr>fh_mem := m4\<rparr>)
       }
     } else Some (heap1\<lparr>fh_mem := m3\<rparr>)
   }"

declare cutFibonacciMinHeap.simps [code]

text \<open>\<^verbatim>\<open>decreaseFibonacciMinHeap\<close>.\<close>

definition decreaseFibonacciMinHeap ::
  "FibonacciMinHeap \<Rightarrow> int \<Rightarrow> int \<Rightarrow> int \<Rightarrow> FibonacciMinHeap option" where
  "decreaseFibonacciMinHeap heap vertex via weight = do {
     element \<leftarrow> mem_get (fh_positions heap) vertex;
     if element \<noteq> None then do {
       w \<leftarrow> get_weight (fh_mem heap) element;
       if w > weight then do {
         m1 \<leftarrow> upd (fh_mem heap) element (\<lambda>x. x\<lparr>fe_via := via, fe_weight := weight\<rparr>);
         parent \<leftarrow> get_parent m1 element;
         if parent = None then do {
           we \<leftarrow> get_weight m1 element;
           wmin \<leftarrow> get_weight m1 (fh_minimum heap);
           Some (heap\<lparr>fh_mem := m1,
                      fh_minimum := (if we < wmin then element else fh_minimum heap)\<rparr>)
         } else do {
           wp \<leftarrow> get_weight m1 parent;
           if weight < wp then cutFibonacciMinHeap (heap\<lparr>fh_mem := m1\<rparr>) element
           else Some (heap\<lparr>fh_mem := m1\<rparr>)
         }
       } else Some heap
     } else Some heap
   }"

text \<open>
  \<^verbatim>\<open>consolidateFibonacciMinHeap\<close>. The degree array has
  \<^verbatim>\<open>(int) (2 * log2(heap->size) + 1)\<close> slots, computed in floating point by the source;
  the model takes the exact value \<open>\<lfloor>log2 (size\<^sup>2)\<rfloor> + 1\<close>.
\<close>

fun floor_log2 :: "nat \<Rightarrow> nat" where
  "floor_log2 n = (if n < 2 then 0 else Suc (floor_log2 (n div 2)))"

definition degreeSize :: "int \<Rightarrow> int" where
  "degreeSize n = int (floor_log2 (nat (n * n))) + 1"

text \<open>
  The inner \<^verbatim>\<open>while (degree[currentDegree] != NULL)\<close> loop: the tree in the table
  and the tree at hand are linked, the heavier root below the other.
\<close>

partial_function (option) consolidate_link ::
  "memory \<Rightarrow> pointer list \<Rightarrow> pointer \<Rightarrow> int \<Rightarrow> (memory \<times> pointer list \<times> pointer \<times> int) option" where
  "consolidate_link m degree element currentDegree = do {
     d \<leftarrow> arr_get degree currentDegree;
     if d \<noteq> None then do {
       we \<leftarrow> get_weight m element;
       wd \<leftarrow> get_weight m d;
       (element1, degree1) \<leftarrow>
          (if we > wd then map_option (\<lambda>dg. (d, dg)) (arr_set degree currentDegree element)
           else Some (element, degree));
       d1 \<leftarrow> arr_get degree1 currentDegree;
       c \<leftarrow> get_child m element1;
       m1 \<leftarrow> (if c = None then do {
                ma \<leftarrow> set_child m element1 d1;
                set_parent ma d1 element1
              } else do {
                ma \<leftarrow> set_parent m d1 element1;
                c1 \<leftarrow> get_child ma element1;
                mb \<leftarrow> set_right ma d1 c1;
                c2 \<leftarrow> get_child mb element1;
                cl \<leftarrow> get_left mb c2;
                mc \<leftarrow> set_left mb d1 cl;
                dr \<leftarrow> get_right mc d1;
                md \<leftarrow> set_left mc dr d1;
                dl \<leftarrow> get_left md d1;
                set_right md dl d1
              });
       m2 \<leftarrow> upd m1 element1 (\<lambda>x. x\<lparr>fe_childrens := fe_childrens x + 1\<rparr>);
       m3 \<leftarrow> set_marked m2 d1 False;
       degree2 \<leftarrow> arr_set degree1 currentDegree None;
       consolidate_link m3 degree2 element1 (currentDegree + 1)
     } else Some (m, degree, element, currentDegree)
   }"

declare consolidate_link.simps [code]

text \<open>The outer \<^verbatim>\<open>do ... while (element != NULL)\<close> loop over the root list.\<close>

partial_function (option) consolidate_roots ::
  "memory \<Rightarrow> pointer list \<Rightarrow> pointer \<Rightarrow> (memory \<times> pointer list) option" where
  "consolidate_roots m degree element = do {
     r \<leftarrow> get_right m element;
     let nextElement = (if element = r then None else r);
     l \<leftarrow> get_left m element;
     m1 \<leftarrow> set_left m r l;
     l1 \<leftarrow> get_left m1 element;
     r1 \<leftarrow> get_right m1 element;
     m2 \<leftarrow> set_right m1 l1 r1;
     m3 \<leftarrow> set_right m2 element element;
     m4 \<leftarrow> set_left m3 element element;
     currentDegree \<leftarrow> get_childrens m4 element;
     (m5, degree1, element1, currentDegree1) \<leftarrow> consolidate_link m4 degree element currentDegree;
     degree2 \<leftarrow> arr_set degree1 currentDegree1 element1;
     if nextElement \<noteq> None then consolidate_roots m5 degree2 nextElement
     else Some (m5, degree2)
   }"

declare consolidate_roots.simps [code]

text \<open>
  The final \<^verbatim>\<open>for\<close> loop over the degree array rebuilds the root list and elects the
  minimum; the argument is what is left of the array.
\<close>

fun consolidate_minimum :: "memory \<Rightarrow> pointer \<Rightarrow> pointer list \<Rightarrow> (memory \<times> pointer) option" where
  "consolidate_minimum m minimum [] = Some (m, minimum)"
| "consolidate_minimum m minimum (d # degree) =
     (if d \<noteq> None then
        (if minimum = None then do {
           m1 \<leftarrow> set_right m d d;
           m2 \<leftarrow> set_left m1 d d;
           consolidate_minimum m2 d degree
         } else do {
           m1 \<leftarrow> set_right m d minimum;
           ml \<leftarrow> get_left m1 minimum;
           m2 \<leftarrow> set_left m1 d ml;
           ml' \<leftarrow> get_left m2 minimum;
           m3 \<leftarrow> set_right m2 ml' d;
           m4 \<leftarrow> set_left m3 minimum d;
           wd \<leftarrow> get_weight m4 d;
           wmin \<leftarrow> get_weight m4 minimum;
           consolidate_minimum m4 (if wd < wmin then d else minimum) degree
         })
      else consolidate_minimum m minimum degree)"

definition consolidateFibonacciMinHeap :: "FibonacciMinHeap \<Rightarrow> FibonacciMinHeap option" where
  "consolidateFibonacciMinHeap heap = do {
     let degree = replicate (nat (degreeSize (fh_size heap))) None;
     (m1, degree1) \<leftarrow> consolidate_roots (fh_mem heap) degree (fh_minimum heap);
     (m2, minimum) \<leftarrow> consolidate_minimum m1 None degree1;
     Some (heap\<lparr>fh_mem := m2, fh_minimum := minimum\<rparr>)
   }"

text \<open>
  The \<^verbatim>\<open>for (i = 0; i < minimum->childrens; i++)\<close> loop of \<^verbatim>\<open>popFibonacciMinHeap\<close>,
  which moves the children of the minimum into the root list.
\<close>

partial_function (option) pop_children :: "memory \<Rightarrow> pointer \<Rightarrow> int \<Rightarrow> memory option" where
  "pop_children m minimum i = do {
     n \<leftarrow> get_childrens m minimum;
     if i < n then do {
       child \<leftarrow> get_child m minimum;
       cr \<leftarrow> get_right m child;
       m1 \<leftarrow> (if child = cr then set_child m minimum None
              else do {
                ma \<leftarrow> set_child m minimum cr;
                cr1 \<leftarrow> get_right ma child;
                cl1 \<leftarrow> get_left ma child;
                mb \<leftarrow> set_left ma cr1 cl1;
                cl2 \<leftarrow> get_left mb child;
                cr2 \<leftarrow> get_right mb child;
                set_right mb cl2 cr2
              });
       m2 \<leftarrow> set_parent m1 child None;
       m3 \<leftarrow> set_right m2 child minimum;
       ml \<leftarrow> get_left m3 minimum;
       m4 \<leftarrow> set_left m3 child ml;
       ml' \<leftarrow> get_left m4 minimum;
       m5 \<leftarrow> set_right m4 ml' child;
       m6 \<leftarrow> set_left m5 minimum child;
       pop_children m6 minimum (i + 1)
     } else Some m
   }"

declare pop_children.simps [code]

text \<open>
  \<^verbatim>\<open>popFibonacciMinHeap\<close>. The triple \<open>out\<close> is the content of the three output
  parameters \<^verbatim>\<open>(*vertex, *via, *weight)\<close> before the call; the result holds their
  content after it.
\<close>

definition free_cell :: "memory \<Rightarrow> pointer \<Rightarrow> memory option" where
  "free_cell m p = (case p of
                      None \<Rightarrow> Some m
                    | Some a \<Rightarrow> if a < length m \<and> m ! a \<noteq> None then Some (m[a := None]) else None)"

definition popFibonacciMinHeap ::
  "FibonacciMinHeap \<Rightarrow> int \<times> int \<times> int \<Rightarrow> (FibonacciMinHeap \<times> int \<times> int \<times> int) option" where
  "popFibonacciMinHeap heap out =
     (let minimum = fh_minimum heap in
      if minimum \<noteq> None then do {
        e \<leftarrow> deref (fh_mem heap) minimum;
        let out' = (fe_vertex e, fe_via e, fe_weight e);
        m1 \<leftarrow> pop_children (fh_mem heap) minimum 0;
        r \<leftarrow> get_right m1 minimum;
        (m2, minimum') \<leftarrow>
           (if minimum = r then Some (m1, None)
            else do {
              l \<leftarrow> get_left m1 minimum;
              ma \<leftarrow> set_left m1 r l;
              l1 \<leftarrow> get_left ma minimum;
              r1 \<leftarrow> get_right ma minimum;
              mb \<leftarrow> set_right ma l1 r1;
              r2 \<leftarrow> get_right mb minimum;
              Some (mb, r2)
            });
        v \<leftarrow> map_option fe_vertex (deref m2 minimum);
        pos \<leftarrow> mem_set (fh_positions heap) v None;
        m3 \<leftarrow> free_cell m2 minimum;
        let heap1 = heap\<lparr>fh_size := fh_size heap - 1, fh_minimum := minimum',
                         fh_positions := pos, fh_mem := m3\<rparr>;
        heap2 \<leftarrow> (if fh_size heap1 > 0 then consolidateFibonacciMinHeap heap1 else Some heap1);
        Some (heap2, out')
      } else Some (heap, out))"

section \<open>Merge sort over the edge list\<close>

text \<open>
  A C \<^verbatim>\<open>for\<close> loop whose bounds are fixed and whose body does not assign the counter
  runs its body once for each value of the counter, in order, and stops at the first
  failure.
\<close>

fun for_each :: "'i list \<Rightarrow> ('i \<Rightarrow> 's \<Rightarrow> 's option) \<Rightarrow> 's \<Rightarrow> 's option" where
  "for_each [] body s = Some s"
| "for_each (i # is) body s = (case body i s of None \<Rightarrow> None | Some s' \<Rightarrow> for_each is body s')"

text \<open>
  \<^verbatim>\<open>merge\<close>. The scratch buffer \<^verbatim>\<open>working\<close> is uninitialised memory of \<open>end - start + 1\<close>
  edges; \<^verbatim>\<open>memcpy\<close> copies the first part forward, the first loop copies the second part
  in reverse, and the second loop writes the list back, taking the smaller of the two
  ends of the buffer (the left one when the weights are equal). The state of the second
  loop is \<open>(edgeList, left, right)\<close>.
\<close>

definition merge_step ::
  "edge option list \<Rightarrow> int \<Rightarrow> edge list \<times> int \<times> int \<Rightarrow> (edge list \<times> int \<times> int) option" where
  "merge_step working k st =
     (case st of (edgeList, left, right) \<Rightarrow> do {
        wr \<leftarrow> mem_get working right;
        wl \<leftarrow> mem_get working left;
        if e_weight wr < e_weight wl
        then do { el \<leftarrow> arr_set edgeList k wr; Some (el, left, right - 1) }
        else do { el \<leftarrow> arr_set edgeList k wl; Some (el, left + 1, right) }
      })"

definition merge_c :: "edge list \<Rightarrow> int \<Rightarrow> int \<Rightarrow> int \<Rightarrow> edge list option" where
  "merge_c edgeList start end pivot = do {
     let length = end - start + 1;
     working0 \<leftarrow> (if length < 0 \<or> pivot - start + 1 < 0 then None
                  else Some (replicate (nat length) None));
     working1 \<leftarrow> for_each [0 .. pivot - start]
                   (\<lambda>j w. do { e \<leftarrow> arr_get edgeList (start + j); mem_set w j e }) working0;
     let workingEnd = end + pivot - start + 1;
     working2 \<leftarrow> for_each [pivot + 1 .. end]
                   (\<lambda>i w. do { e \<leftarrow> arr_get edgeList i; mem_set w (workingEnd - i) e }) working1;
     (edgeList', left, right) \<leftarrow> for_each [start .. end] (merge_step working2)
                                   (edgeList, 0, end - start);
     Some edgeList'
   }"

text \<open>
  \<^verbatim>\<open>mergeSort\<close>. The recursion stops only at \<^verbatim>\<open>start == end\<close>; the pivot is computed with
  C's truncating division.
\<close>

partial_function (option) mergeSort :: "edge list \<Rightarrow> int \<Rightarrow> int \<Rightarrow> edge list option" where
  "mergeSort edgeList start end =
     (if start \<noteq> end then do {
        let pivot = (start + end) sdiv 2;
        edgeList1 \<leftarrow> mergeSort edgeList start pivot;
        edgeList2 \<leftarrow> mergeSort edgeList1 (pivot + 1) end;
        merge_c edgeList2 start end pivot
      } else Some edgeList)"

declare mergeSort.simps [code]

text \<open>
  The segment \<open>[lo..hi]\<close> of a list, and the function the write-back loop of \<^verbatim>\<open>merge\<close>
  computes on the scratch buffer: take the last element when it is strictly lighter than
  the first one, the first one otherwise.
\<close>

definition seg :: "'a list \<Rightarrow> int \<Rightarrow> int \<Rightarrow> 'a list" where
  "seg xs lo hi = take (nat (hi - lo + 1)) (drop (nat lo) xs)"

function bitonic_merge :: "edge list \<Rightarrow> edge list" where
  "bitonic_merge xs =
     (if xs = [] then []
      else if e_weight (last xs) < e_weight (hd xs) then last xs # bitonic_merge (butlast xs)
      else hd xs # bitonic_merge (tl xs))"
  by pat_completeness auto
termination
  by (relation "measure length") auto

declare bitonic_merge.simps [simp del]

text \<open>A list that rises and then falls by weight: the shape of the scratch buffer.\<close>

definition bitonic :: "edge list \<Rightarrow> bool" where
  "bitonic xs \<longleftrightarrow> (\<exists>ls rs. xs = ls @ rev rs \<and> sorted (map e_weight ls) \<and> sorted (map e_weight rs))"

section \<open>The graph and the MST algorithms on one process\<close>

text \<open>
  \<^verbatim>\<open>struct WeightedGraph { int edges; int vertices; int* edgeList; }\<close>. The algorithms are
  modelled as rank 0 of a cohort of one process runs them (\<^verbatim>\<open>parallel\<close> is false: no
  scatter, no message is sent or received); the exchange of messages between several
  processes is outside of this model.
\<close>

record WeightedGraph =
  g_edges :: int
  g_vertices :: int
  g_edgeList :: "edge list"

text \<open>\<^verbatim>\<open>newWeightedGraph\<close>: \<^verbatim>\<open>calloc\<close> zeroes the edge list.\<close>

definition newWeightedGraph :: "int \<Rightarrow> int \<Rightarrow> WeightedGraph" where
  "newWeightedGraph vertices edges =
     \<lparr> g_edges = edges, g_vertices = vertices, g_edgeList = replicate (nat edges) (0, 0, 0) \<rparr>"

text \<open>\<^verbatim>\<open>sort\<close> with \<^verbatim>\<open>size == 1\<close>: the whole list is the local part.\<close>

definition sort_c :: "WeightedGraph \<Rightarrow> WeightedGraph option" where
  "sort_c graph = do {
     let elements = g_edges graph;
     let elementsPart = chunkSize elements 1;
     edgeListPart \<leftarrow> mergeSort (g_edgeList graph) 0 (elementsPart - 1);
     Some (graph\<lparr>g_edgeList := edgeListPart\<rparr>)
   }"

text \<open>
  \<^verbatim>\<open>mstKruskal\<close>. The loop runs while \<^verbatim>\<open>edgesMST < vertices - 1 || currentEdge < edges\<close>;
  its state is the forest, the edge list of the MST and the two counters. The result is
  the edge list of the MST and the number of edges written to it.
\<close>

partial_function (option) kruskal_loop ::
  "WeightedGraph \<Rightarrow> Set_t \<Rightarrow> edge list \<Rightarrow> int \<Rightarrow> int \<Rightarrow> (edge list \<times> int) option" where
  "kruskal_loop graph dset mstEdgeList edgesMST currentEdge =
     (if edgesMST < g_vertices graph - 1 \<or> currentEdge < g_edges graph then do {
        e \<leftarrow> arr_get (g_edgeList graph) currentEdge;
        (canonicalElementFrom, set1) \<leftarrow> findSet dset (e_from e);
        (canonicalElementTo, set2) \<leftarrow> findSet set1 (e_to e);
        if canonicalElementFrom \<noteq> canonicalElementTo then do {
          mstEdgeList' \<leftarrow> arr_set mstEdgeList edgesMST e;
          set3 \<leftarrow> unionSet set2 canonicalElementFrom canonicalElementTo;
          kruskal_loop graph set3 mstEdgeList' (edgesMST + 1) (currentEdge + 1)
        } else kruskal_loop graph set2 mstEdgeList edgesMST (currentEdge + 1)
      } else Some (mstEdgeList, edgesMST))"

declare kruskal_loop.simps [code]

definition mstKruskal :: "WeightedGraph \<Rightarrow> WeightedGraph \<Rightarrow> (edge list \<times> int) option" where
  "mstKruskal graph mst = do {
     let dset = newSet (g_vertices graph);
     graph' \<leftarrow> sort_c graph;
     kruskal_loop graph' dset (g_edgeList mst) 0 0
   }"

text \<open>
  \<^verbatim>\<open>mstBoruvka\<close>. The table \<^verbatim>\<open>closestEdge\<close> has one slot of three ints per vertex and comes
  from \<^verbatim>\<open>malloc\<close>: a slot is three cells that may be uninitialised. Each phase first sets
  the weight cell of every slot to \<^verbatim>\<open>INT_MAX\<close>.
\<close>

type_synonym slot = "int option \<times> int option \<times> int option"




definition reset_closest :: "slot list \<Rightarrow> slot list" where
  "reset_closest closestEdge = map (\<lambda>(f, t, w). (f, t, Some INT_MAX)) closestEdge"







section \<open>Properties of the disjoint-set forest\<close>

lemma arr_get_Some_iff:
  "arr_get xs i = Some x \<longleftrightarrow> 0 \<le> i \<and> i < int (length xs) \<and> xs ! nat i = x"
  by (auto simp: arr_get_def)

lemma arr_get_update:
  "arr_get (xs[nat i := x]) j = (if j = i \<and> 0 \<le> i \<and> i < int (length xs) then Some x
                                 else if 0 \<le> i then arr_get xs j else arr_get (xs[0 := x]) j)"
  by (auto simp: arr_get_def)

lemma arr_get_update_in:
  "0 \<le> i \<Longrightarrow> i < int (length xs) \<Longrightarrow> arr_get (xs[nat i := x]) j = (if j = i then Some x else arr_get xs j)"
  by (auto simp: arr_get_def)

lemma root_of_unique: "root_of ps v r \<Longrightarrow> root_of ps v r' \<Longrightarrow> r = r'"
proof (induction arbitrary: r' rule: root_of.induct)
  case (root v)
  from root.prems root.hyps show ?case by (cases rule: root_of.cases) auto
next
  case (step v p r)
  from step.prems show ?case
  proof (cases rule: root_of.cases)
    case root
    with step.hyps show ?thesis by simp
  next
    case (step p')
    with step.hyps step.IH show ?thesis by simp
  qed
qed

lemma root_of_is_root: "root_of ps v r \<Longrightarrow> arr_get ps r = Some UNSET_ELEMENT"
  by (induction rule: root_of.induct) auto


lemma root_of_range: "root_of ps v r \<Longrightarrow> 0 \<le> v \<and> v < int (length ps) \<and> 0 \<le> r \<and> r < int (length ps)"
  by (induction rule: root_of.induct) (auto simp: arr_get_Some_iff)

lemma root_of_compress:
  assumes v: "root_of ps v r" and nr: "arr_get ps v \<noteq> Some UNSET_ELEMENT"
    and u: "root_of ps u q"
  shows "root_of (ps[nat v := r]) u q"
  using u
proof (induction rule: root_of.induct)
  case (root u)
  with nr have "u \<noteq> v" by auto
  with root show ?case
    using root_of_range [OF v] by (auto intro!: root_of.root simp: arr_get_update_in)
next
  case (step u p q)
  have rng: "0 \<le> v \<and> v < int (length ps)" using root_of_range [OF v] by simp
  show ?case
  proof (cases "u = v")
    case True
    have "root_of ps v q" using step.hyps True by (auto intro: root_of.step)
    then have qr: "q = r" using v root_of_unique by blast
    have rr: "arr_get ps r = Some UNSET_ELEMENT" using v by (rule root_of_is_root)
    with nr have "r \<noteq> v" by auto
    then have "root_of (ps[nat v := r]) r r"
      using rr rng by (auto intro!: root_of.root simp: arr_get_update_in)
    moreover have "arr_get (ps[nat v := r]) v = Some r" using rng by (simp add: arr_get_update_in)
    moreover have "r \<noteq> UNSET_ELEMENT" using root_of_range [OF v] by (auto simp: UNSET_ELEMENT_def)
    ultimately show ?thesis using True qr by (auto intro: root_of.step)
  next
    case False
    then have "arr_get (ps[nat v := r]) u = Some p" using step.hyps rng by (simp add: arr_get_update_in)
    with step show ?thesis by (auto intro: root_of.step)
  qed
qed

lemma on_path_root: "arr_get ps v = Some UNSET_ELEMENT \<Longrightarrow> on_path ps v u \<Longrightarrow> u = v"
  by (erule on_path.cases) auto

lemma on_path_step:
  "arr_get ps v = Some p \<Longrightarrow> p \<noteq> UNSET_ELEMENT \<Longrightarrow> on_path ps v u \<longleftrightarrow> u = v \<or> on_path ps p u"
  by (auto elim: on_path.cases intro: on_path.intros)


definition find_post :: "Set_t \<Rightarrow> int \<Rightarrow> int \<Rightarrow> Set_t \<Rightarrow> bool" where
  "find_post s x r s' \<longleftrightarrow>
       ranks s' = ranks s \<and> s_elements s' = s_elements s
     \<and> length (canonicalElements s') = length (canonicalElements s)
     \<and> (\<forall>u. on_path (canonicalElements s) x u \<and> u \<noteq> r \<longrightarrow> arr_get (canonicalElements s') u = Some r)
     \<and> (\<forall>u. \<not> on_path (canonicalElements s) x u
            \<longrightarrow> arr_get (canonicalElements s') u = arr_get (canonicalElements s) u)
     \<and> arr_get (canonicalElements s') r = Some UNSET_ELEMENT
     \<and> (\<forall>v q. root_of (canonicalElements s) v q \<longrightarrow> root_of (canonicalElements s') v q)"

lemma findSet_root_of:
  assumes "root_of (canonicalElements s) x r"
  shows "\<exists>s'. findSet s x = Some (r, s') \<and> find_post s x r s'"
  using assms
proof (induction rule: root_of.induct)
  case (root v)
  have "findSet s v = Some (v, s)" using root by (subst findSet.simps) simp
  moreover have "find_post s v v s"
    unfolding find_post_def using root by (auto dest: on_path_root)
  ultimately show ?case by blast
next
  case (step v p r)
  let ?ps = "canonicalElements s"
  from step.IH obtain s1 where f1: "findSet s p = Some (r, s1)" and p1: "find_post s p r s1" by blast
  let ?qs = "canonicalElements s1"
  have vr: "root_of ?ps v r" using step.hyps by (auto intro: root_of.step)
  have rng: "0 \<le> v \<and> v < int (length ?ps)" using root_of_range [OF vr] by simp
  have rr: "arr_get ?ps r = Some UNSET_ELEMENT" using vr by (rule root_of_is_root)
  have rne: "r \<noteq> UNSET_ELEMENT" using root_of_range [OF vr] by (auto simp: UNSET_ELEMENT_def)
  have vner: "v \<noteq> r" using rr step.hyps by auto
  have len: "length ?qs = length ?ps" using p1 by (simp add: find_post_def)
  let ?s' = "s1\<lparr>canonicalElements := ?qs[nat v := r]\<rparr>"
  have st: "arr_set ?qs v r = Some (?qs[nat v := r])" using rng len by (simp add: arr_set_def)
  have f: "findSet s v = Some (r, ?s')"
    using step.hyps f1 st by (subst findSet.simps) simp
  have qv: "arr_get ?qs v \<noteq> Some UNSET_ELEMENT"
  proof (cases "on_path ?ps p v")
    case True
    with p1 vner have "arr_get ?qs v = Some r" by (simp add: find_post_def)
    with rne show ?thesis by simp
  next
    case False
    with p1 have "arr_get ?qs v = arr_get ?ps v" by (simp add: find_post_def)
    with step.hyps show ?thesis by simp
  qed
  have vr1: "root_of ?qs v r" using p1 vr by (simp add: find_post_def)
  have path: "\<And>u. on_path ?ps v u \<longleftrightarrow> u = v \<or> on_path ?ps p u"
    using step.hyps by (simp add: on_path_step)
  have "find_post s v r ?s'"
    unfolding find_post_def
  proof (intro conjI allI impI)
    show "ranks ?s' = ranks s" using p1 by (simp add: find_post_def)
    show "s_elements ?s' = s_elements s" using p1 by (simp add: find_post_def)
    show "length (canonicalElements ?s') = length ?ps" using len by simp
  next
    fix u assume "on_path ?ps v u \<and> u \<noteq> r"
    then have "u = v \<or> (on_path ?ps p u \<and> u \<noteq> r)" using path by blast
    then show "arr_get (canonicalElements ?s') u = Some r"
      using p1 rng len by (auto simp: find_post_def arr_get_update_in)
  next
    fix u assume "\<not> on_path ?ps v u"
    then have "u \<noteq> v" "\<not> on_path ?ps p u" using path by blast+
    then show "arr_get (canonicalElements ?s') u = arr_get ?ps u"
      using p1 rng len by (auto simp: find_post_def arr_get_update_in)
  next
    show "arr_get (canonicalElements ?s') r = Some UNSET_ELEMENT"
      using p1 rng len vner by (auto simp: find_post_def arr_get_update_in)
  next
    fix u q assume "root_of ?ps u q"
    then have "root_of ?qs u q" using p1 by (simp add: find_post_def)
    then show "root_of (canonicalElements ?s') u q"
      using root_of_compress [OF vr1 qv] by simp
  qed
  with f show ?case by blast
qed

lemma find_post_wf:
  assumes "wf_set s" "find_post s x r s'"
  shows "wf_set s'" "root_of (canonicalElements s') v q \<longleftrightarrow> root_of (canonicalElements s) v q"
proof -
  show w: "wf_set s'" using assms unfolding wf_set_def find_post_def by metis
  show "root_of (canonicalElements s') v q \<longleftrightarrow> root_of (canonicalElements s) v q"
  proof
    assume a: "root_of (canonicalElements s') v q"
    then have "0 \<le> v \<and> v < int (length (canonicalElements s))"
      using root_of_range [OF a] assms(2) by (simp add: find_post_def)
    then obtain q0 where q0: "root_of (canonicalElements s) v q0" using assms(1) by (auto simp: wf_set_def)
    then have "root_of (canonicalElements s') v q0" using assms(2) by (simp add: find_post_def)
    with a have "q = q0" using root_of_unique by blast
    with q0 show "root_of (canonicalElements s) v q" by simp
  next
    assume "root_of (canonicalElements s) v q"
    then show "root_of (canonicalElements s') v q" using assms(2) by (simp add: find_post_def)
  qed
qed


lemma root_of_link:
  assumes "root_of ps v q" "arr_get ps ra = Some UNSET_ELEMENT" "arr_get ps rb = Some UNSET_ELEMENT"
    "ra \<noteq> rb"
  shows "root_of (ps[nat ra := rb]) v (if q = ra then rb else q)"
  using assms(1)
proof (induction rule: root_of.induct)
  case (root v)
  have rng: "0 \<le> ra \<and> ra < int (length ps)" "0 \<le> rb" using assms by (auto simp: arr_get_Some_iff)
  have b: "root_of (ps[nat ra := rb]) rb rb"
    using assms rng by (auto intro!: root_of.root simp: arr_get_update_in)
  show ?case
  proof (cases "v = ra")
    case True
    have "arr_get (ps[nat ra := rb]) ra = Some rb" using rng by (simp add: arr_get_update_in)
    moreover have "rb \<noteq> UNSET_ELEMENT" using rng by (simp add: UNSET_ELEMENT_def)
    ultimately show ?thesis using b True by (auto intro: root_of.step)
  next
    case False
    then show ?thesis using root rng by (auto intro!: root_of.root simp: arr_get_update_in)
  qed
next
  case (step v p q)
  have rng: "0 \<le> ra \<and> ra < int (length ps)" using assms by (auto simp: arr_get_Some_iff)
  have "v \<noteq> ra" using step.hyps assms by auto
  then have "arr_get (ps[nat ra := rb]) v = Some p" using step.hyps rng by (simp add: arr_get_update_in)
  with step show ?case by (auto intro: root_of.step)
qed

lemma wf_set_link:
  assumes "wf_set s" "arr_get (canonicalElements s) ra = Some UNSET_ELEMENT"
    "arr_get (canonicalElements s) rb = Some UNSET_ELEMENT" "ra \<noteq> rb"
    "canonicalElements s' = (canonicalElements s)[nat ra := rb]"
    "length (ranks s') = length (ranks s)"
  shows "wf_set s'"
  unfolding wf_set_def
proof (intro conjI allI impI)
  show "length (ranks s') = length (canonicalElements s')"
    using assms by (simp add: wf_set_def)
next
  fix v
  assume "0 \<le> v \<and> v < int (length (canonicalElements s'))"
  then obtain q where "root_of (canonicalElements s) v q" using assms(1,5) by (auto simp: wf_set_def)
  from root_of_link [OF this assms(2,3,4)]
  show "\<exists>r. root_of (canonicalElements s') v r"
    using assms(5) by auto
qed

text \<open>What \<^verbatim>\<open>unionSet\<close> does, by the four branches of the source.\<close>

lemma unionSet_cases:
  assumes wf: "wf_set s" and a: "root_of (canonicalElements s) a ra"
    and b: "root_of (canonicalElements s) b rb"
  shows "\<exists>s1 s2 rka rkb. findSet s a = Some (ra, s1) \<and> find_post s a ra s1
           \<and> findSet s1 b = Some (rb, s2) \<and> find_post s1 b rb s2
           \<and> arr_get (ranks s) ra = Some rka \<and> arr_get (ranks s) rb = Some rkb
           \<and> unionSet s a b = Some
               (if ra = rb then s2
                else if rka < rkb then s2\<lparr>canonicalElements := (canonicalElements s2)[nat ra := rb]\<rparr>
                else if rka > rkb then s2\<lparr>canonicalElements := (canonicalElements s2)[nat rb := ra]\<rparr>
                else s2\<lparr>canonicalElements := (canonicalElements s2)[nat ra := rb],
                        ranks := (ranks s2)[nat rb := rka + 1]\<rparr>)"
proof -
  from findSet_root_of [OF a] obtain s1 where 1: "findSet s a = Some (ra, s1)" "find_post s a ra s1"
    by blast
  have b1: "root_of (canonicalElements s1) b rb" using 1(2) b by (simp add: find_post_def)
  from findSet_root_of [OF b1] obtain s2 where 2: "findSet s1 b = Some (rb, s2)" "find_post s1 b rb s2"
    by blast
  have rk: "ranks s2 = ranks s" "length (canonicalElements s2) = length (canonicalElements s)"
    using 1(2) 2(2) by (simp_all add: find_post_def)
  have ra: "0 \<le> ra \<and> ra < int (length (canonicalElements s))"
    and rb: "0 \<le> rb \<and> rb < int (length (canonicalElements s))"
    using root_of_range [OF a] root_of_range [OF b] by simp_all
  have lr: "length (ranks s) = length (canonicalElements s)" using wf by (simp add: wf_set_def)
  obtain rka rkb where g: "arr_get (ranks s) ra = Some rka" "arr_get (ranks s) rb = Some rkb"
    using ra rb lr by (simp add: arr_get_def)
  have sa: "arr_set (canonicalElements s2) ra rb = Some ((canonicalElements s2)[nat ra := rb])"
    and sb: "arr_set (canonicalElements s2) rb ra = Some ((canonicalElements s2)[nat rb := ra])"
    and sr: "\<And>x. arr_set (ranks s2) rb x = Some ((ranks s2)[nat rb := x])"
    using ra rb rk lr by (simp_all add: arr_set_def)
  have "unionSet s a b = Some
               (if ra = rb then s2
                else if rka < rkb then s2\<lparr>canonicalElements := (canonicalElements s2)[nat ra := rb]\<rparr>
                else if rka > rkb then s2\<lparr>canonicalElements := (canonicalElements s2)[nat rb := ra]\<rparr>
                else s2\<lparr>canonicalElements := (canonicalElements s2)[nat ra := rb],
                        ranks := (ranks s2)[nat rb := rka + 1]\<rparr>)"
    unfolding unionSet_def using 1(1) 2(1) g rk(1) sa sb sr by simp
  with 1 2 g show ?thesis by blast
qed


lemma root_of_newSet:
  "0 \<le> v \<Longrightarrow> v < n \<Longrightarrow> root_of (canonicalElements (newSet n)) v v"
  by (rule root_of.root) (simp add: newSet_def arr_get_def)

lemma wf_set_newSet: "wf_set (newSet n)"
  unfolding wf_set_def
proof (intro conjI allI impI)
  show "length (ranks (newSet n)) = length (canonicalElements (newSet n))" by (simp add: newSet_def)
next
  fix v assume "0 \<le> v \<and> v < int (length (canonicalElements (newSet n)))"
  then have "0 \<le> v" "v < n" by (auto simp: newSet_def split: if_splits)
  then show "\<exists>r. root_of (canonicalElements (newSet n)) v r" using root_of_newSet by blast
qed

text \<open>
  C5. In a well-formed forest \<^verbatim>\<open>findSet\<close> returns for every element \<open>x\<close>, and what it
  returns is the canonical root \<open>r\<close> of \<open>x\<close>. Afterwards the parent slot of every element
  on the path from \<open>x\<close> to the root, the root excepted, holds \<open>r\<close>; the root's slot is still
  unset, every other parent slot is as before, the rank array is unchanged, and no
  element has changed its canonical root.
\<close>

theorem findSet_path_compression:
  assumes "wf_set s" "0 \<le> x" "x < int (length (canonicalElements s))"
  shows "\<exists>r s'. findSet s x = Some (r, s') \<and> root_of (canonicalElements s) x r
           \<and> (\<forall>u. on_path (canonicalElements s) x u \<and> u \<noteq> r
                  \<longrightarrow> arr_get (canonicalElements s') u = Some r)
           \<and> arr_get (canonicalElements s') r = Some UNSET_ELEMENT
           \<and> (\<forall>u. \<not> on_path (canonicalElements s) x u
                  \<longrightarrow> arr_get (canonicalElements s') u = arr_get (canonicalElements s) u)
           \<and> ranks s' = ranks s
           \<and> (\<forall>v q. root_of (canonicalElements s') v q \<longleftrightarrow> root_of (canonicalElements s) v q)"
proof -
  from assms obtain r where r: "root_of (canonicalElements s) x r" by (auto simp: wf_set_def)
  from findSet_root_of [OF r] obtain s' where f: "findSet s x = Some (r, s')" and p: "find_post s x r s'"
    by blast
  have "\<forall>v q. root_of (canonicalElements s') v q \<longleftrightarrow> root_of (canonicalElements s) v q"
    using find_post_wf(2) [OF assms(1) p] by blast
  with f r p show ?thesis unfolding find_post_def by blast
qed

theorem findSet_path_compression_witness:
  "wf_set \<lparr>s_elements = 3, canonicalElements = [1, 2, - 1], ranks = [0, 1, 2]\<rparr>
   \<and> (\<exists>r s'. findSet \<lparr>s_elements = 3, canonicalElements = [1, 2, - 1], ranks = [0, 1, 2]\<rparr> 0 = Some (r, s')
        \<and> ranks s' = [0, 1, 2])
   \<and> findSet \<lparr>s_elements = 3, canonicalElements = [1, 2, - 1], ranks = [0, 1, 2]\<rparr> 0
        = Some (2, \<lparr>s_elements = 3, canonicalElements = [2, 2, - 1], ranks = [0, 1, 2]\<rparr>)"
proof -
  let ?s = "\<lparr>s_elements = 3, canonicalElements = [1, 2, - 1], ranks = [0, 1, 2]\<rparr>"
  have r2: "root_of [1, 2, - 1] 2 2"
    by (rule root_of.root) (simp add: arr_get_def UNSET_ELEMENT_def)
  have r1: "root_of [1, 2, - 1] 1 2"
    by (rule root_of.step [OF _ _ r2]) (simp_all add: arr_get_def UNSET_ELEMENT_def)
  have r0: "root_of [1, 2, - 1] 0 2"
    by (rule root_of.step [OF _ _ r1]) (simp_all add: arr_get_def UNSET_ELEMENT_def)
  have w: "wf_set ?s"
    unfolding wf_set_def
  proof (intro conjI allI impI)
    show "length (ranks ?s) = length (canonicalElements ?s)" by simp
  next
    fix v :: int assume "0 \<le> v \<and> v < int (length (canonicalElements ?s))"
    then have "v = 0 \<or> v = 1 \<or> v = 2" by auto
    then show "\<exists>r. root_of (canonicalElements ?s) v r" using r0 r1 r2 by auto
  qed
  have "\<exists>r s'. findSet ?s 0 = Some (r, s') \<and> ranks s' = [0, 1, 2]"
    using findSet_path_compression [OF w, of 0] by auto
  moreover have "findSet ?s 0
        = Some (2, \<lparr>s_elements = 3, canonicalElements = [2, 2, - 1], ranks = [0, 1, 2]\<rparr>)"
    by code_simp
  ultimately show ?thesis using w by blast
qed

lemma find_post_slots:
  assumes "root_of (canonicalElements s) x r" "find_post s x r s'"
  shows "arr_get (canonicalElements s') u
           = (if on_path (canonicalElements s) x u \<and> u \<noteq> r then Some r
              else arr_get (canonicalElements s) u)"
proof (cases "on_path (canonicalElements s) x u")
  case True
  show ?thesis
  proof (cases "u = r")
    case True
    then show ?thesis using assms root_of_is_root [OF assms(1)] by (simp add: find_post_def)
  next
    case False
    then show ?thesis using True assms(2) by (simp add: find_post_def)
  qed
next
  case False
  then show ?thesis using assms(2) by (simp add: find_post_def)
qed

lemma forest_of_three_unions:
  "unionSet (newSet 4) 0 1 \<bind> (\<lambda>s1. unionSet s1 2 3) \<bind> (\<lambda>s2. unionSet s2 1 3)
   = Some \<lparr>s_elements = 4, canonicalElements = [1, 3, 3, - 1], ranks = [0, 1, 0, 2]\<rparr>"
  by code_simp

text \<open>
  C4, the claim as stated fails: \<^verbatim>\<open>unionSet\<close> on two elements that already share their
  canonical root is not a no-op, because the two calls of \<^verbatim>\<open>findSet\<close> it starts with
  compress the paths. The forest below is the one that \<^verbatim>\<open>unionSet(set, 0, 1)\<close>,
  \<^verbatim>\<open>unionSet(set, 2, 3)\<close> and \<^verbatim>\<open>unionSet(set, 1, 3)\<close> build from \<^verbatim>\<open>newSet(4)\<close>: 0 and 3
  share the root 3, and \<^verbatim>\<open>unionSet(set, 0, 3)\<close> rewrites the parent slot of 0.
\<close>

theorem unionSet_same_root_counterexample:
  "map_option fst (findSet \<lparr>s_elements = 4, canonicalElements = [1, 3, 3, - 1], ranks = [0, 1, 0, 2]\<rparr> 0)
     = Some 3
   \<and> map_option fst (findSet \<lparr>s_elements = 4, canonicalElements = [1, 3, 3, - 1], ranks = [0, 1, 0, 2]\<rparr> 3)
     = Some 3
   \<and> unionSet \<lparr>s_elements = 4, canonicalElements = [1, 3, 3, - 1], ranks = [0, 1, 0, 2]\<rparr> 0 3
     = Some \<lparr>s_elements = 4, canonicalElements = [3, 3, 3, - 1], ranks = [0, 1, 0, 2]\<rparr>
   \<and> \<lparr>s_elements = 4, canonicalElements = [3, 3, 3, - 1], ranks = [0, 1, 0, 2]\<rparr>
     \<noteq> \<lparr>s_elements = 4, canonicalElements = [1, 3, 3, - 1], ranks = [0, 1, 0, 2]\<rparr>"
  by code_simp

text \<open>
  C4, amended. In a well-formed forest \<^verbatim>\<open>unionSet\<close> returns a well-formed forest. It first
  runs \<^verbatim>\<open>findSet\<close> on \<open>a\<close> and then on \<open>b\<close>: in the forest \<open>s2\<close> these two calls leave, every
  element other than the root on the path from \<open>a\<close>, and then on the path from \<open>b\<close>, has
  the root in its parent slot, and every other parent slot and every rank is as before.
  When \<open>a\<close> and \<open>b\<close> share their root, the result is \<open>s2\<close>: no rank and no element's
  canonical root has changed, only the paths are compressed. Otherwise the result is
  \<open>s2\<close> with one more write: the root of strictly higher rank goes into the parent slot
  of the root of strictly lower rank and no rank changes; when the ranks are equal the
  root of \<open>b\<close> goes into the parent slot of the root of \<open>a\<close> and exactly 1 is added to the
  rank of the root of \<open>b\<close>. In each case the winning root stays a root, and every
  element whose root was the losing one now has the winning one.
\<close>

theorem unionSet_by_rank:
  assumes "wf_set s" "root_of (canonicalElements s) a ra" "root_of (canonicalElements s) b rb"
  shows "\<exists>s1 s2 s' rka rkb. findSet s a = Some (ra, s1) \<and> findSet s1 b = Some (rb, s2)
     \<and> unionSet s a b = Some s' \<and> wf_set s'
     \<and> arr_get (ranks s) ra = Some rka \<and> arr_get (ranks s) rb = Some rkb
     \<and> length (canonicalElements s') = length (canonicalElements s)
     \<and> ranks s2 = ranks s \<and> s_elements s2 = s_elements s
     \<and> length (canonicalElements s2) = length (canonicalElements s)
     \<and> (\<forall>u. arr_get (canonicalElements s2) u
              = (if on_path (canonicalElements s1) b u \<and> u \<noteq> rb then Some rb
                 else if on_path (canonicalElements s) a u \<and> u \<noteq> ra then Some ra
                 else arr_get (canonicalElements s) u))
     \<and> (ra = rb \<longrightarrow> s' = s2 \<and> ranks s' = ranks s
           \<and> (\<forall>v q. root_of (canonicalElements s') v q \<longleftrightarrow> root_of (canonicalElements s) v q))
     \<and> (ra \<noteq> rb \<and> rka < rkb \<longrightarrow>
             s' = s2\<lparr>canonicalElements := (canonicalElements s2)[nat ra := rb]\<rparr>
           \<and> ranks s' = ranks s
           \<and> arr_get (canonicalElements s') ra = Some rb
           \<and> arr_get (canonicalElements s') rb = Some UNSET_ELEMENT
           \<and> (\<forall>v q. root_of (canonicalElements s) v q
                  \<longrightarrow> root_of (canonicalElements s') v (if q = ra then rb else q)))
     \<and> (ra \<noteq> rb \<and> rka > rkb \<longrightarrow>
             s' = s2\<lparr>canonicalElements := (canonicalElements s2)[nat rb := ra]\<rparr>
           \<and> ranks s' = ranks s
           \<and> arr_get (canonicalElements s') rb = Some ra
           \<and> arr_get (canonicalElements s') ra = Some UNSET_ELEMENT
           \<and> (\<forall>v q. root_of (canonicalElements s) v q
                  \<longrightarrow> root_of (canonicalElements s') v (if q = rb then ra else q)))
     \<and> (ra \<noteq> rb \<and> rka = rkb \<longrightarrow>
             s' = s2\<lparr>canonicalElements := (canonicalElements s2)[nat ra := rb],
                     ranks := (ranks s)[nat rb := rkb + 1]\<rparr>
           \<and> ranks s' = (ranks s)[nat rb := rkb + 1]
           \<and> arr_get (canonicalElements s') ra = Some rb
           \<and> arr_get (canonicalElements s') rb = Some UNSET_ELEMENT
           \<and> (\<forall>v q. root_of (canonicalElements s) v q
                  \<longrightarrow> root_of (canonicalElements s') v (if q = ra then rb else q)))"
proof -
  from unionSet_cases [OF assms] obtain s1 s2 rka rkb where
    f1: "findSet s a = Some (ra, s1)" and f2: "findSet s1 b = Some (rb, s2)"
    and 1: "find_post s a ra s1" and 2: "find_post s1 b rb s2"
    and g: "arr_get (ranks s) ra = Some rka" "arr_get (ranks s) rb = Some rkb"
    and u: "unionSet s a b = Some
               (if ra = rb then s2
                else if rka < rkb then s2\<lparr>canonicalElements := (canonicalElements s2)[nat ra := rb]\<rparr>
                else if rka > rkb then s2\<lparr>canonicalElements := (canonicalElements s2)[nat rb := ra]\<rparr>
                else s2\<lparr>canonicalElements := (canonicalElements s2)[nat ra := rb],
                        ranks := (ranks s2)[nat rb := rka + 1]\<rparr>)"
    by blast
  let ?ps = "canonicalElements s" and ?qs = "canonicalElements s2"
  have w1: "wf_set s1" using find_post_wf(1) [OF assms(1) 1] .
  have w2: "wf_set s2" using find_post_wf(1) [OF w1 2] .
  have same: "\<And>v q. root_of ?qs v q \<longleftrightarrow> root_of ?ps v q"
    using find_post_wf(2) [OF assms(1) 1] find_post_wf(2) [OF w1 2] by simp
  have rk: "ranks s2 = ranks s" and len: "length ?qs = length ?ps"
    and el: "s_elements s2 = s_elements s"
    using 1 2 by (simp_all add: find_post_def)
  have b1: "root_of (canonicalElements s1) b rb" using 1 assms(3) by (simp add: find_post_def)
  have slots: "\<forall>u. arr_get ?qs u
              = (if on_path (canonicalElements s1) b u \<and> u \<noteq> rb then Some rb
                 else if on_path ?ps a u \<and> u \<noteq> ra then Some ra
                 else arr_get ?ps u)"
    using find_post_slots [OF assms(2) 1] find_post_slots [OF b1 2] by simp
  have ua: "arr_get ?qs ra = Some UNSET_ELEMENT" and ub: "arr_get ?qs rb = Some UNSET_ELEMENT"
    using same assms(2,3) root_of_is_root by blast+
  have rng: "0 \<le> ra \<and> ra < int (length ?qs)" "0 \<le> rb \<and> rb < int (length ?qs)"
    using ua ub by (auto simp: arr_get_Some_iff)
  note pre = f1 f2 g rk el len slots
  show ?thesis
  proof (cases "ra = rb")
    case True
    then have "unionSet s a b = Some s2" using u by simp
    with True w2 pre same show ?thesis by auto
  next
    case False
    note ne = this
    have ne': "rb \<noteq> ra" using ne by simp
    have la: "\<And>v q. root_of ?ps v q \<Longrightarrow> root_of (?qs[nat ra := rb]) v (if q = ra then rb else q)"
      using root_of_link [OF _ ua ub ne] same by blast
    have lb: "\<And>v q. root_of ?ps v q \<Longrightarrow> root_of (?qs[nat rb := ra]) v (if q = rb then ra else q)"
      using root_of_link [OF _ ub ua ne'] same by blast
    have ga: "arr_get (?qs[nat ra := rb]) ra = Some rb" "arr_get (?qs[nat ra := rb]) rb = Some UNSET_ELEMENT"
      using rng ub ne by (simp_all add: arr_get_update_in)
    have gb: "arr_get (?qs[nat rb := ra]) rb = Some ra" "arr_get (?qs[nat rb := ra]) ra = Some UNSET_ELEMENT"
      using rng ua ne by (simp_all add: arr_get_update_in)
    consider (lt) "rka < rkb" | (gt) "rka > rkb" | (eq) "rka = rkb" by linarith
    then show ?thesis
    proof cases
      case lt
      define s' where "s' = s2\<lparr>canonicalElements := ?qs[nat ra := rb]\<rparr>"
      have "unionSet s a b = Some s'" using u ne lt by (simp add: s'_def)
      moreover have "wf_set s'"
        using wf_set_link [OF w2 ua ub ne] by (simp add: s'_def)
      moreover have "ranks s' = ranks s" "length (canonicalElements s') = length ?ps"
        "arr_get (canonicalElements s') ra = Some rb"
        "arr_get (canonicalElements s') rb = Some UNSET_ELEMENT"
        "\<forall>v q. root_of ?ps v q \<longrightarrow> root_of (canonicalElements s') v (if q = ra then rb else q)"
        using rk len ga la by (simp_all add: s'_def)
      ultimately show ?thesis using ne lt pre s'_def by (intro exI [of _ s1] exI [of _ s2] exI [of _ s'] exI [of _ rka] exI [of _ rkb]) simp
    next
      case gt
      define s' where "s' = s2\<lparr>canonicalElements := ?qs[nat rb := ra]\<rparr>"
      have "unionSet s a b = Some s'" using u ne gt by (simp add: s'_def)
      moreover have "wf_set s'"
        using wf_set_link [OF w2 ub ua ne'] by (simp add: s'_def)
      moreover have "ranks s' = ranks s" "length (canonicalElements s') = length ?ps"
        "arr_get (canonicalElements s') rb = Some ra"
        "arr_get (canonicalElements s') ra = Some UNSET_ELEMENT"
        "\<forall>v q. root_of ?ps v q \<longrightarrow> root_of (canonicalElements s') v (if q = rb then ra else q)"
        using rk len gb lb by (simp_all add: s'_def)
      ultimately show ?thesis using ne gt pre s'_def by (intro exI [of _ s1] exI [of _ s2] exI [of _ s'] exI [of _ rka] exI [of _ rkb]) simp
    next
      case eq
      define s' where "s' = s2\<lparr>canonicalElements := ?qs[nat ra := rb],
                        ranks := (ranks s)[nat rb := rkb + 1]\<rparr>"
      have "unionSet s a b = Some s'" using u ne eq by (simp add: s'_def rk)
      moreover have "wf_set s'"
        using wf_set_link [OF w2 ua ub ne, of s'] by (simp add: s'_def rk)
      moreover have "ranks s' = (ranks s)[nat rb := rkb + 1]" "length (canonicalElements s') = length ?ps"
        "arr_get (canonicalElements s') ra = Some rb"
        "arr_get (canonicalElements s') rb = Some UNSET_ELEMENT"
        "\<forall>v q. root_of ?ps v q \<longrightarrow> root_of (canonicalElements s') v (if q = ra then rb else q)"
        using rk len ga la by (simp_all add: s'_def)
      ultimately show ?thesis using ne eq pre s'_def by (intro exI [of _ s1] exI [of _ s2] exI [of _ s'] exI [of _ rka] exI [of _ rkb]) simp
    qed
  qed
qed

theorem unionSet_by_rank_witness:
  "wf_set \<lparr>s_elements = 4, canonicalElements = [1, 3, 3, - 1], ranks = [0, 1, 0, 2]\<rparr>
   \<and> root_of [1, 3, 3, - 1] 0 3 \<and> root_of [1, 3, 3, - 1] 3 3
   \<and> (\<exists>s'. unionSet \<lparr>s_elements = 4, canonicalElements = [1, 3, 3, - 1], ranks = [0, 1, 0, 2]\<rparr> 0 3
               = Some s' \<and> wf_set s' \<and> ranks s' = [0, 1, 0, 2] \<and> root_of (canonicalElements s') 2 3)
   \<and> unionSet \<lparr>s_elements = 4, canonicalElements = [1, 3, 3, - 1], ranks = [0, 1, 0, 2]\<rparr> 0 3
        = Some \<lparr>s_elements = 4, canonicalElements = [3, 3, 3, - 1], ranks = [0, 1, 0, 2]\<rparr>
   \<and> wf_set \<lparr>s_elements = 3, canonicalElements = [1, - 1, - 1], ranks = [0, 1, 0]\<rparr>
   \<and> unionSet (newSet 3) 0 1
        = Some \<lparr>s_elements = 3, canonicalElements = [1, - 1, - 1], ranks = [0, 1, 0]\<rparr>
   \<and> unionSet \<lparr>s_elements = 3, canonicalElements = [1, - 1, - 1], ranks = [0, 1, 0]\<rparr> 2 0
        = Some \<lparr>s_elements = 3, canonicalElements = [1, - 1, 1], ranks = [0, 1, 0]\<rparr>
   \<and> unionSet \<lparr>s_elements = 3, canonicalElements = [1, - 1, - 1], ranks = [0, 1, 0]\<rparr> 0 2
        = Some \<lparr>s_elements = 3, canonicalElements = [1, - 1, 1], ranks = [0, 1, 0]\<rparr>
   \<and> wf_set \<lparr>s_elements = 3, canonicalElements = [1, - 1, 1], ranks = [0, 1, 0]\<rparr>"
proof -
  let ?s4 = "\<lparr>s_elements = 4, canonicalElements = [1, 3, 3, - 1], ranks = [0, 1, 0, 2]\<rparr>"
  let ?s3 = "\<lparr>s_elements = 3, canonicalElements = [1, - 1, - 1], ranks = [0, 1, 0]\<rparr>"
  let ?t3 = "\<lparr>s_elements = 3, canonicalElements = [1, - 1, 1], ranks = [0, 1, 0]\<rparr>"
  have r3: "root_of [1, 3, 3, - 1] 3 3"
    by (rule root_of.root) (simp add: arr_get_def UNSET_ELEMENT_def)
  have r2: "root_of [1, 3, 3, - 1] 2 3"
    by (rule root_of.step [OF _ _ r3]) (simp_all add: arr_get_def UNSET_ELEMENT_def)
  have r1: "root_of [1, 3, 3, - 1] 1 3"
    by (rule root_of.step [OF _ _ r3]) (simp_all add: arr_get_def UNSET_ELEMENT_def)
  have r0: "root_of [1, 3, 3, - 1] 0 3"
    by (rule root_of.step [OF _ _ r1]) (simp_all add: arr_get_def UNSET_ELEMENT_def)
  have w4: "wf_set ?s4"
    unfolding wf_set_def
  proof (intro conjI allI impI)
    show "length (ranks ?s4) = length (canonicalElements ?s4)" by simp
  next
    fix v :: int assume "0 \<le> v \<and> v < int (length (canonicalElements ?s4))"
    then have "v = 0 \<or> v = 1 \<or> v = 2 \<or> v = 3" by auto
    then show "\<exists>r. root_of (canonicalElements ?s4) v r" using r0 r1 r2 r3 by auto
  qed
  have same: "\<exists>s'. unionSet ?s4 0 3 = Some s' \<and> wf_set s' \<and> ranks s' = [0, 1, 0, 2]
                \<and> root_of (canonicalElements s') 2 3"
    using unionSet_by_rank [of ?s4 0 3 3 3] w4 r0 r3 r2 by simp blast
  have e4: "unionSet ?s4 0 3
        = Some \<lparr>s_elements = 4, canonicalElements = [3, 3, 3, - 1], ranks = [0, 1, 0, 2]\<rparr>"
    by code_simp
  have n0: "root_of (canonicalElements (newSet 3)) 0 0" by (rule root_of_newSet) simp_all
  have n1: "root_of (canonicalElements (newSet 3)) 1 1" by (rule root_of_newSet) simp_all
  have e3: "unionSet (newSet 3) 0 1 = Some ?s3" by code_simp
  have w3: "wf_set ?s3"
    using unionSet_by_rank [OF wf_set_newSet n0 n1] e3 by auto
  have q1: "root_of (canonicalElements ?s3) 1 1"
    by (rule root_of.root) (simp add: arr_get_def UNSET_ELEMENT_def)
  have q0: "root_of (canonicalElements ?s3) 0 1"
    by (rule root_of.step [OF _ _ q1]) (simp_all add: arr_get_def UNSET_ELEMENT_def)
  have q2: "root_of (canonicalElements ?s3) 2 2"
    by (rule root_of.root) (simp add: arr_get_def UNSET_ELEMENT_def)
  have lt: "unionSet ?s3 2 0 = Some ?t3" by code_simp
  have gt: "unionSet ?s3 0 2 = Some ?t3" by code_simp
  have wt: "wf_set ?t3"
    using unionSet_by_rank [OF w3 q2 q0] lt by auto
  from w4 r0 r3 same e4 w3 e3 lt gt wt show ?thesis by blast
qed



definition in_set :: "Set_t \<Rightarrow> int \<Rightarrow> bool" where
  "in_set s v \<longleftrightarrow> 0 \<le> v \<and> v < int (length (canonicalElements s))"












lemma in_set_cong: "length (canonicalElements s') = length (canonicalElements s) \<Longrightarrow> in_set s' v = in_set s v"
  by (simp add: in_set_def)


section \<open>Properties of the scatter\<close>

lemma chunkSize_pos:
  assumes "1 \<le> elements" "1 \<le> csize"
  shows "1 \<le> chunkSize elements csize"
proof -
  have "csize \<le> elements + csize - 1" using assms by simp
  then have "0 < (elements + csize - 1) div csize"
    using assms pos_imp_zdiv_pos_iff [of csize "elements + csize - 1"] by simp
  then have "1 \<le> (elements + csize - 1) div csize" by simp
  moreover have "(elements + csize - 1) sdiv csize = (elements + csize - 1) div csize"
    using assms by (simp add: signed_divide_int_def sgn_if)
  ultimately show ?thesis by (simp add: chunkSize_def)
qed

lemma chunkSize_div:
  assumes "0 \<le> elements" "1 \<le> csize"
  shows "chunkSize elements csize = (elements + csize - 1) div csize"
  using assms by (simp add: chunkSize_def signed_divide_int_def sgn_if)

lemma chunkSize_cover:
  assumes "0 \<le> elements" "1 \<le> csize"
  shows "elements \<le> csize * chunkSize elements csize"
    "csize * chunkSize elements csize < elements + csize"
    "0 \<le> chunkSize elements csize"
proof -
  define q where "q = (elements + csize - 1) div csize"
  define r where "r = (elements + csize - 1) mod csize"
  have e: "elements + csize - 1 = csize * q + r" by (simp add: q_def r_def)
  have r: "0 \<le> r" "r < csize" using assms(2) by (simp_all add: r_def)
  have c: "chunkSize elements csize = q" using chunkSize_div [OF assms] by (simp add: q_def)
  show "elements \<le> csize * chunkSize elements csize" using e r by (simp add: c)
  show "csize * chunkSize elements csize < elements + csize" using e r by (simp add: c)
  show "0 \<le> chunkSize elements csize" using assms by (simp add: c q_def pos_imp_zdiv_nonneg_iff)
qed

lemma chunkSize_zero:
  assumes "0 \<le> elements" "1 \<le> csize"
  shows "chunkSize elements csize = 0 \<longleftrightarrow> elements = 0"
  using chunkSize_cover [OF assms] chunkSize_pos [of elements csize] assms by (cases "elements = 0") auto

lemma chunkSize_dvd:
  assumes "0 \<le> elements" "1 \<le> csize"
  shows "csize * chunkSize elements csize = elements \<longleftrightarrow> csize dvd elements"
proof
  assume "csize * chunkSize elements csize = elements"
  then show "csize dvd elements" by (metis dvd_triv_left)
next
  assume "csize dvd elements"
  then obtain k where k: "elements = csize * k" by (auto simp: dvd_def)
  have "(csize * k + csize - 1) div csize = k"
  proof -
    have "csize * k + csize - 1 = (csize - 1) + k * csize" by (simp add: algebra_simps)
    also have "\<dots> div csize = k + (csize - 1) div csize"
      using assms(2) by (intro div_mult_self1) simp
    also have "(csize - 1) div csize = 0" using assms(2) by (intro div_pos_pos_trivial) simp_all
    finally show ?thesis by simp
  qed
  then show "csize * chunkSize elements csize = elements"
    using chunkSize_div [OF assms] k by simp
qed

text \<open>
  C7. In a cohort of at least two processes (the only case in which the program calls the
  scatter), with the chunk size the callers compute and a root buffer of \<open>E\<close> edges: the
  scatter ends with the \<open>UnsupportedTopology\<close> diagnostic of rank 0 exactly when
  \<open>\<lfloor>E/2\<rfloor> + 1 < csize\<close> and \<open>E \<noteq> csize\<close>. Under this condition every rank leaves the program
  in the scatter (at \<open>E = 0\<close> the last rank by the trap of its remainder by zero, before
  the check); for every other combination no rank raises the error, and each rank
  returns the slots of its chunk and its count as stated: a slot behind the end of the
  root's buffer holds no edge. Such slots exist exactly when \<open>csize\<close> does not divide \<open>E\<close>.
\<close>

theorem scatterEdgeList_UnsupportedTopology_iff:
  assumes "2 \<le> csize" "0 \<le> rank" "rank < csize" "int (length es) = E"
  shows "(scatterEdgeList 0 csize es E (chunkSize E csize) = Inl UnsupportedTopology
            \<longleftrightarrow> E sdiv 2 + 1 < csize \<and> E \<noteq> csize)
       \<and> scatterEdgeList rank csize es E (chunkSize E csize)
           = (if E sdiv 2 + 1 < csize \<and> E \<noteq> csize
              then (if rank = csize - 1 \<and> E = 0 then Inl DivisionByZero else Inl UnsupportedTopology)
              else Inr (map (\<lambda>j. if rank * chunkSize E csize + j < E
                                  then Some (es ! nat (rank * chunkSize E csize + j)) else None)
                          [0 .. chunkSize E csize - 1],
                        if rank = csize - 1 \<and> E smod chunkSize E csize \<noteq> 0
                        then E smod chunkSize E csize else chunkSize E csize))
       \<and> ((\<forall>r j. 0 \<le> r \<and> r < csize \<and> 0 \<le> j \<and> j < chunkSize E csize
                  \<longrightarrow> r * chunkSize E csize + j < E)
            \<longleftrightarrow> csize dvd E)"
proof -
  define c where "c = chunkSize E csize"
  have E0: "0 \<le> E" using assms(4) by auto
  have cs: "1 \<le> csize" using assms(1) by simp
  note cov = chunkSize_cover [OF E0 cs, folded c_def]
  have cz: "c = 0 \<longleftrightarrow> E = 0" using chunkSize_zero [OF E0 cs] by (simp add: c_def)
  have zero: "E = 0 \<Longrightarrow> E sdiv 2 + 1 < csize \<and> E \<noteq> csize" using assms by simp
  have slots: "map (\<lambda>j. arr_get es (rank * c + j)) [0 .. c - 1]
             = map (\<lambda>j. if rank * c + j < E then Some (es ! nat (rank * c + j)) else None) [0 .. c - 1]"
  proof (rule map_cong [OF refl])
    fix j assume "j \<in> set [0 .. c - 1]"
    then have "0 \<le> rank * c + j" using assms(2) cov(3) by simp
    then show "arr_get es (rank * c + j)
             = (if rank * c + j < E then Some (es ! nat (rank * c + j)) else None)"
      using assms(4) by (simp add: arr_get_def)
  qed
  have 1: "scatterEdgeList 0 csize es E c = Inl UnsupportedTopology
            \<longleftrightarrow> E sdiv 2 + 1 < csize \<and> E \<noteq> csize"
    using assms(1) by (auto simp: scatterEdgeList_def Let_def)
  have 2: "scatterEdgeList rank csize es E c
           = (if E sdiv 2 + 1 < csize \<and> E \<noteq> csize
              then (if rank = csize - 1 \<and> E = 0 then Inl DivisionByZero else Inl UnsupportedTopology)
              else Inr (map (\<lambda>j. if rank * c + j < E then Some (es ! nat (rank * c + j)) else None)
                          [0 .. c - 1],
                        if rank = csize - 1 \<and> E smod c \<noteq> 0 then E smod c else c))"
    using zero cz by (auto simp: scatterEdgeList_def Let_def slots)
  have 3: "(\<forall>r j. 0 \<le> r \<and> r < csize \<and> 0 \<le> j \<and> j < c \<longrightarrow> r * c + j < E) \<longleftrightarrow> csize dvd E"
  proof
    assume a: "\<forall>r j. 0 \<le> r \<and> r < csize \<and> 0 \<le> j \<and> j < c \<longrightarrow> r * c + j < E"
    show "csize dvd E"
    proof (cases "c = 0")
      case True
      then show ?thesis using cz by simp
    next
      case False
      then have "0 < c" using cov(3) by simp
      then have "(csize - 1) * c + (c - 1) < E" using a assms(1) by simp
      then have "csize * c \<le> E" by (simp add: algebra_simps)
      then have "csize * c = E" using cov(1) by simp
      then show ?thesis using chunkSize_dvd [OF E0 cs] by (simp add: c_def)
    qed
  next
    assume "csize dvd E"
    then have e: "csize * c = E" using chunkSize_dvd [OF E0 cs] by (simp add: c_def)
    show "\<forall>r j. 0 \<le> r \<and> r < csize \<and> 0 \<le> j \<and> j < c \<longrightarrow> r * c + j < E"
    proof (intro allI impI)
      fix r j assume rj: "0 \<le> r \<and> r < csize \<and> 0 \<le> j \<and> j < c"
      then have "r * c \<le> (csize - 1) * c" using cov(3) by (intro mult_right_mono) simp_all
      moreover have "j < c" using rj by simp
      ultimately have "r * c + j < (csize - 1) * c + c" by linarith
      then show "r * c + j < E" using e by (simp add: algebra_simps)
    qed
  qed
  from 1 2 3 show ?thesis unfolding c_def by blast
qed

theorem scatterEdgeList_UnsupportedTopology_iff_witness:
  "scatterEdgeList 0 2 [] 0 (chunkSize 0 2) = Inl UnsupportedTopology
   \<and> scatterEdgeList 1 2 [] 0 (chunkSize 0 2) = Inl DivisionByZero
   \<and> scatterEdgeList 0 3 [(0, 1, 5)] 1 (chunkSize 1 3) = Inl UnsupportedTopology
   \<and> scatterEdgeList 1 2 [(0, 1, 5), (1, 2, 7), (0, 2, 9)] 3 (chunkSize 3 2)
       = Inr ([Some (0, 2, 9), None], 1)
   \<and> scatterEdgeList 2 3 [(0, 1, 5), (1, 2, 7), (0, 2, 9), (2, 3, 1)] 4 (chunkSize 4 3)
       = Inr ([None, None], 2)
   \<and> scatterEdgeList 1 2 [(0, 1, 5), (1, 2, 7), (0, 2, 9), (2, 3, 1)] 4 (chunkSize 4 2)
       = Inr ([Some (0, 2, 9), Some (2, 3, 1)], 2)"
proof -
  have c: "chunkSize 0 2 = 0" "chunkSize 1 3 = 1" "chunkSize 3 2 = 2" "chunkSize 4 3 = 2"
    "chunkSize 4 2 = 2"
    by (simp_all add: chunkSize_def signed_divide_int_def)
  have u: "[0 .. (1::int)] = [0, 1]" "[0 .. (0::int)] = [0]" by (simp_all add: upto.simps)
  have a: "scatterEdgeList 0 2 [] 0 (chunkSize 0 2) = Inl UnsupportedTopology"
    using scatterEdgeList_UnsupportedTopology_iff [of 2 0 "[]" 0] by simp
  have b: "scatterEdgeList 1 2 [] 0 (chunkSize 0 2) = Inl DivisionByZero"
    using scatterEdgeList_UnsupportedTopology_iff [of 2 1 "[]" 0] by simp
  have d: "scatterEdgeList 0 3 [(0, 1, 5)] 1 (chunkSize 1 3) = Inl UnsupportedTopology"
    using scatterEdgeList_UnsupportedTopology_iff [of 3 0 "[(0, 1, 5)]" 1]
    by (simp add: signed_divide_int_def)
  have e: "scatterEdgeList 1 2 [(0, 1, 5), (1, 2, 7), (0, 2, 9)] 3 (chunkSize 3 2)
       = Inr ([Some (0, 2, 9), None], 1)"
    using scatterEdgeList_UnsupportedTopology_iff [of 2 1 "[(0, 1, 5), (1, 2, 7), (0, 2, 9)]" 3]
    by (simp add: c u signed_divide_int_def signed_modulo_int_def)
  have f: "scatterEdgeList 2 3 [(0, 1, 5), (1, 2, 7), (0, 2, 9), (2, 3, 1)] 4 (chunkSize 4 3)
       = Inr ([None, None], 2)"
    using scatterEdgeList_UnsupportedTopology_iff
      [of 3 2 "[(0, 1, 5), (1, 2, 7), (0, 2, 9), (2, 3, 1)]" 4]
    by (simp add: c u signed_divide_int_def signed_modulo_int_def)
  have g: "scatterEdgeList 1 2 [(0, 1, 5), (1, 2, 7), (0, 2, 9), (2, 3, 1)] 4 (chunkSize 4 2)
       = Inr ([Some (0, 2, 9), Some (2, 3, 1)], 2)"
    using scatterEdgeList_UnsupportedTopology_iff
      [of 2 1 "[(0, 1, 5), (1, 2, 7), (0, 2, 9), (2, 3, 1)]" 4]
    by (simp add: c u signed_divide_int_def signed_modulo_int_def)
  from a b d e f g show ?thesis by blast
qed

section \<open>Properties of merge sort\<close>

lemma mset_bitonic_merge: "mset (bitonic_merge xs) = mset xs"
proof (induction xs rule: bitonic_merge.induct)
  case (1 xs)
  show ?case
  proof (cases "xs = []")
    case True
    then show ?thesis by (simp add: bitonic_merge.simps)
  next
    case False
    note ne = this
    show ?thesis
    proof (cases "e_weight (last xs) < e_weight (hd xs)")
      case True
      with ne 1 have "mset (bitonic_merge (butlast xs)) = mset (butlast xs)" by simp
      moreover have "mset xs = mset (butlast xs) + {#last xs#}"
        using ne by (metis append_butlast_last_id mset.simps(1) mset.simps(2) mset_append union_mset_add_mset_right add.right_neutral)
      ultimately show ?thesis using ne True by (subst bitonic_merge.simps) simp
    next
      case False
      with ne 1 have "mset (bitonic_merge (tl xs)) = mset (tl xs)" by simp
      moreover have "mset xs = add_mset (hd xs) (mset (tl xs))"
        using ne by (cases xs) auto
      ultimately show ?thesis using ne False by (subst bitonic_merge.simps) simp
    qed
  qed
qed

lemma bitonic_tl: "bitonic xs \<Longrightarrow> bitonic (tl xs)"
proof -
  assume "bitonic xs"
  then obtain ls rs where x: "xs = ls @ rev rs" and l: "sorted (map e_weight ls)"
    and r: "sorted (map e_weight rs)" by (auto simp: bitonic_def)
  show ?thesis
  proof (cases ls)
    case Nil
    have "tl (rev rs) = rev (butlast rs)" by (metis butlast_rev rev_rev_ident)
    then have "tl xs = [] @ rev (butlast rs)" using x Nil by simp
    moreover have "sorted (map e_weight (butlast rs))"
      using r by (simp add: map_butlast sorted_butlast)
    moreover have "sorted (map e_weight ([] :: edge list))" by simp
    ultimately show ?thesis unfolding bitonic_def by blast
  next
    case (Cons a ls')
    then have "tl xs = ls' @ rev rs" using x by simp
    moreover have "sorted (map e_weight ls')" using l Cons by simp
    ultimately show ?thesis using r unfolding bitonic_def by blast
  qed
qed

lemma bitonic_butlast: "bitonic xs \<Longrightarrow> bitonic (butlast xs)"
proof -
  assume "bitonic xs"
  then obtain ls rs where x: "xs = ls @ rev rs" and l: "sorted (map e_weight ls)"
    and r: "sorted (map e_weight rs)" by (auto simp: bitonic_def)
  show ?thesis
  proof (cases rs)
    case Nil
    then have "butlast xs = butlast ls @ rev []" using x by simp
    moreover have "sorted (map e_weight (butlast ls))"
      using l by (simp add: map_butlast sorted_butlast)
    moreover have "sorted (map e_weight ([] :: edge list))" by simp
    ultimately show ?thesis unfolding bitonic_def by blast
  next
    case (Cons a rs')
    then have "butlast xs = ls @ rev rs'" using x by (simp add: butlast_append)
    moreover have "sorted (map e_weight rs')" using r Cons by simp
    ultimately show ?thesis using l unfolding bitonic_def by blast
  qed
qed

lemma bitonic_min:
  assumes "bitonic xs" "x \<in> set xs"
  shows "min (e_weight (hd xs)) (e_weight (last xs)) \<le> e_weight x"
proof -
  from assms obtain ls rs where x: "xs = ls @ rev rs" and l: "sorted (map e_weight ls)"
    and r: "sorted (map e_weight rs)" by (auto simp: bitonic_def)
  from assms x have "x \<in> set ls \<or> x \<in> set rs" by auto
  then show ?thesis
  proof
    assume xl: "x \<in> set ls"
    then obtain a ls' where ls: "ls = a # ls'" by (cases ls) auto
    then have "hd xs = a" using x by simp
    moreover have "e_weight a \<le> e_weight x" using l xl ls by auto
    ultimately show ?thesis by simp
  next
    assume xr: "x \<in> set rs"
    then obtain a rs' where rs: "rs = a # rs'" by (cases rs) auto
    then have "last xs = a" using x by simp
    moreover have "e_weight a \<le> e_weight x" using r xr rs by auto
    ultimately show ?thesis by simp
  qed
qed

lemma set_bitonic_merge: "set (bitonic_merge xs) = set xs"
  by (metis mset_bitonic_merge set_mset_mset)

lemma sorted_bitonic_merge: "bitonic xs \<Longrightarrow> sorted (map e_weight (bitonic_merge xs))"
proof (induction xs rule: bitonic_merge.induct)
  case (1 xs)
  show ?case
  proof (cases "xs = []")
    case True
    then show ?thesis by (simp add: bitonic_merge.simps)
  next
    case False
    note ne = this
    have hl: "hd xs \<in> set xs" "last xs \<in> set xs" using ne by auto
    show ?thesis
    proof (cases "e_weight (last xs) < e_weight (hd xs)")
      case True
      have s: "sorted (map e_weight (bitonic_merge (butlast xs)))"
        using 1 ne True bitonic_butlast by blast
      have "\<forall>y \<in> set (butlast xs). e_weight (last xs) \<le> e_weight y"
        using bitonic_min [OF "1.prems"] True by (auto dest: in_set_butlastD)
      with s show ?thesis using ne True
        by (subst bitonic_merge.simps) (simp add: set_bitonic_merge)
    next
      case False
      have s: "sorted (map e_weight (bitonic_merge (tl xs)))"
        using 1 ne False bitonic_tl by blast
      have "\<forall>y \<in> set (tl xs). e_weight (hd xs) \<le> e_weight y"
        using bitonic_min [OF "1.prems"] False ne by (auto dest: list.set_sel(2))
      with s show ?thesis using ne False
        by (subst bitonic_merge.simps) (simp add: set_bitonic_merge)
    qed
  qed
qed

lemma seg_Cons:
  assumes "0 \<le> lo" "lo \<le> hi" "lo < int (length xs)"
  shows "seg xs lo hi = xs ! nat lo # seg xs (lo + 1) hi"
proof -
  have "nat (hi - lo + 1) = Suc (nat (hi - (lo + 1) + 1))" using assms by simp
  moreover have "drop (nat lo) xs = xs ! nat lo # drop (nat (lo + 1)) xs"
    using assms by (simp add: Cons_nth_drop_Suc nat_add_distrib)
  ultimately show ?thesis by (simp add: seg_def)
qed

lemma seg_empty: "hi < lo \<Longrightarrow> seg xs lo hi = []"
  by (simp add: seg_def)

lemma for_each_copy_forward:
  assumes "0 \<le> a" "a \<le> n" "0 \<le> start" "start + n \<le> int (length es)" "n \<le> int (length w)"
  shows "for_each [a .. n - 1] (\<lambda>j w. do { e \<leftarrow> arr_get es (start + j); mem_set w j e }) w
         = Some (take (nat a) w @ map Some (seg es (start + a) (start + n - 1)) @ drop (nat n) w)"
  using assms
proof (induction "nat (n - a)" arbitrary: a w)
  case 0
  then have "a = n" by simp
  then show ?case by (simp add: seg_empty)
next
  case (Suc k)
  then have lt: "a < n" by simp
  let ?e = "es ! nat (start + a)"
  let ?w = "w[nat a := Some ?e]"
  have up: "[a .. n - 1] = a # [a + 1 .. n - 1]" using lt by (simp add: upto_rec1)
  have g: "arr_get es (start + a) = Some ?e" using Suc.prems lt by (simp add: arr_get_def)
  have st: "mem_set w a ?e = Some ?w" using Suc.prems lt by (simp add: mem_set_def arr_set_def)
  have ih: "for_each [a + 1 .. n - 1] (\<lambda>j w. do { e \<leftarrow> arr_get es (start + j); mem_set w j e }) ?w
         = Some (take (nat (a + 1)) ?w @ map Some (seg es (start + (a + 1)) (start + n - 1)) @ drop (nat n) ?w)"
    using Suc.hyps(1) [of "a + 1" ?w] Suc.hyps(2) Suc.prems lt by simp
  have t: "take (nat (a + 1)) ?w = take (nat a) w @ [Some ?e]"
    using Suc.prems lt by (simp add: nat_add_distrib take_Suc_conv_app_nth)
  have d: "drop (nat n) ?w = drop (nat n) w" using lt Suc.prems by simp
  have sg: "seg es (start + a) (start + n - 1) = ?e # seg es (start + (a + 1)) (start + n - 1)"
    using seg_Cons [of "start + a" "start + n - 1" es] Suc.prems lt by (simp add: add.assoc)
  show ?case
    unfolding up using g st ih t d sg by simp
qed


lemma for_each_copy_reverse:
  assumes "0 \<le> a" "a \<le> e + 1" "e < int (length es)" "0 \<le> p" "workingEnd = e + p"
    "workingEnd - a + 1 \<le> int (length w)"
  shows "for_each [a .. e] (\<lambda>i w. do { x \<leftarrow> arr_get es i; mem_set w (workingEnd - i) x }) w
         = Some (take (nat p) w @ rev (map Some (seg es a e)) @ drop (nat (workingEnd - a + 1)) w)"
  using assms
proof (induction "nat (e + 1 - a)" arbitrary: a w)
  case 0
  then have "a = e + 1" by simp
  then show ?case using 0 by (simp add: seg_empty)
next
  case (Suc k)
  then have le: "a \<le> e" by simp
  let ?x = "es ! nat a"
  let ?q = "workingEnd - a"
  let ?w = "w[nat ?q := Some ?x]"
  have up: "[a .. e] = a # [a + 1 .. e]" using le by (simp add: upto_rec1)
  have g: "arr_get es a = Some ?x" using Suc.prems le by (simp add: arr_get_def)
  have q: "p \<le> ?q" "0 \<le> ?q" "?q < int (length w)" using Suc.prems le by simp_all
  have st: "mem_set w ?q ?x = Some ?w" using q by (simp add: mem_set_def arr_set_def)
  have ih: "for_each [a + 1 .. e] (\<lambda>i w. do { x \<leftarrow> arr_get es i; mem_set w (workingEnd - i) x }) ?w
         = Some (take (nat p) ?w @ rev (map Some (seg es (a + 1) e)) @ drop (nat (workingEnd - (a + 1) + 1)) ?w)"
    using Suc.hyps(1) [of "a + 1" ?w] Suc.hyps(2) Suc.prems le by simp
  have t: "take (nat p) ?w = take (nat p) w" using q Suc.prems by simp
  have d: "drop (nat (workingEnd - (a + 1) + 1)) ?w = Some ?x # drop (nat (?q + 1)) w"
  proof -
    have "nat (workingEnd - (a + 1) + 1) = nat ?q" by simp
    moreover have "nat (?q + 1) = Suc (nat ?q)" using q by simp
    moreover have "nat ?q < length ?w" using q by simp
    then have "drop (nat ?q) ?w = ?w ! nat ?q # drop (Suc (nat ?q)) ?w"
      by (rule Cons_nth_drop_Suc [symmetric])
    moreover have "?w ! nat ?q = Some ?x" using q by simp
    moreover have "drop (Suc (nat ?q)) ?w = drop (Suc (nat ?q)) w" by simp
    ultimately show ?thesis by simp
  qed
  have sg: "seg es a e = ?x # seg es (a + 1) e"
    using seg_Cons [of a e es] Suc.prems le by simp
  show ?case
    unfolding up using g st ih t d sg by simp
qed

lemma take_Suc_update:
  "0 \<le> k \<Longrightarrow> k < int (length xs) \<Longrightarrow> take (nat (k + 1)) (xs[nat k := x]) = take (nat k) xs @ [x]"
proof -
  assume a: "0 \<le> k" "k < int (length xs)"
  then have "nat k < length (xs[nat k := x])" by simp
  then have "take (Suc (nat k)) (xs[nat k := x]) = take (nat k) (xs[nat k := x]) @ [xs[nat k := x] ! nat k]"
    by (rule take_Suc_conv_app_nth)
  moreover have "nat (k + 1) = Suc (nat k)" using a by simp
  ultimately show ?thesis using a by simp
qed

lemma bitonic_merge_last:
  "xs \<noteq> [] \<Longrightarrow> e_weight (last xs) < e_weight (hd xs)
     \<Longrightarrow> bitonic_merge xs = last xs # bitonic_merge (butlast xs)"
  by (subst bitonic_merge.simps) simp

lemma bitonic_merge_hd:
  "xs \<noteq> [] \<Longrightarrow> \<not> e_weight (last xs) < e_weight (hd xs)
     \<Longrightarrow> bitonic_merge xs = hd xs # bitonic_merge (tl xs)"
  by (subst bitonic_merge.simps) simp

lemma for_each_merge_step:
  assumes "working = pre @ map Some xs @ post" "left = int (length pre)"
    "right = left + int (length xs) - 1" "int (length xs) = e - k + 1"
    "0 \<le> k" "e < int (length es)"
  shows "\<exists>l r. for_each [k .. e] (merge_step working) (es, left, right)
         = Some (take (nat k) es @ bitonic_merge xs @ drop (nat (e + 1)) es, l, r)"
  using assms
proof (induction "length xs" arbitrary: xs k es left right pre post)
  case 0
  then have "k = e + 1" "xs = []" by simp_all
  then show ?case by (simp add: bitonic_merge.simps)
next
  case (Suc n)
  then have ne: "xs \<noteq> []" by auto
  have le: "k \<le> e" using Suc by simp
  have up: "[k .. e] = k # [k + 1 .. e]" using le by (simp add: upto_rec1)
  have gl: "mem_get working left = Some (hd xs)"
    using Suc.prems ne by (cases xs) (auto simp: mem_get_def arr_get_def nth_append)
  have gr: "mem_get working right = Some (last xs)"
  proof -
    have nr: "nat right = length pre + (length xs - 1)" using Suc.prems ne
      by (cases xs) (auto simp: nat_add_distrib)
    have "(pre @ map Some xs @ post) ! (length pre + (length xs - 1)) = Some (last xs)"
      using ne by (simp add: nth_append last_conv_nth)
    then have nth: "working ! nat right = Some (last xs)"
      using nr Suc.prems(1) by simp
    have "0 \<le> right \<and> right < int (length working)" using Suc.prems ne
      by (cases xs) auto
    then have "arr_get working right = Some (working ! nat right)"
      by (simp add: arr_get_def)
    then show ?thesis using nth by (simp add: mem_get_def)
  qed
  have kk: "0 \<le> k \<and> k < int (length es)" using Suc.prems le by simp
  show ?case
  proof (cases "e_weight (last xs) < e_weight (hd xs)")
    case True
    let ?es = "es[nat k := last xs]"
    have stp: "merge_step working k (es, left, right) = Some (?es, left, right - 1)"
      using gl gr True kk by (simp add: merge_step_def arr_set_def)
    have "map Some xs = map Some (butlast xs @ [last xs])" using ne by simp
    then have "map Some xs = map Some (butlast xs) @ [Some (last xs)]" by simp
    then have w: "working = pre @ map Some (butlast xs) @ (Some (last xs) # post)"
      using Suc.prems(1) by simp
    have "\<exists>l r. for_each [k + 1 .. e] (merge_step working) (?es, left, right - 1)
         = Some (take (nat (k + 1)) ?es @ bitonic_merge (butlast xs) @ drop (nat (e + 1)) ?es, l, r)"
      using Suc.hyps(1) [of "butlast xs" pre "Some (last xs) # post" left "right - 1" "k + 1" ?es]
        Suc.hyps(2) Suc.prems w ne by simp
    moreover have "take (nat (k + 1)) ?es = take (nat k) es @ [last xs]"
      using kk by (simp add: take_Suc_update)
    moreover have "drop (nat (e + 1)) ?es = drop (nat (e + 1)) es" using le kk by simp
    ultimately show ?thesis
      unfolding up using stp bitonic_merge_last [OF ne True] by simp
  next
    case False
    let ?es = "es[nat k := hd xs]"
    have stp: "merge_step working k (es, left, right) = Some (?es, left + 1, right)"
      using gl gr False kk by (simp add: merge_step_def arr_set_def)
    have w: "working = (pre @ [Some (hd xs)]) @ map Some (tl xs) @ post"
      using Suc.prems(1) ne by (cases xs) auto
    have "\<exists>l r. for_each [k + 1 .. e] (merge_step working) (?es, left + 1, right)
         = Some (take (nat (k + 1)) ?es @ bitonic_merge (tl xs) @ drop (nat (e + 1)) ?es, l, r)"
      using Suc.hyps(1) [of "tl xs" "pre @ [Some (hd xs)]" post "left + 1" right "k + 1" ?es]
        Suc.hyps(2) Suc.prems w ne by simp
    moreover have "take (nat (k + 1)) ?es = take (nat k) es @ [hd xs]"
      using kk by (simp add: take_Suc_update)
    moreover have "drop (nat (e + 1)) ?es = drop (nat (e + 1)) es" using le kk by simp
    ultimately show ?thesis
      unfolding up using stp bitonic_merge_hd [OF ne False] by simp
  qed
qed


lemma length_seg:
  "0 \<le> lo \<Longrightarrow> lo \<le> hi + 1 \<Longrightarrow> hi < int (length xs) \<Longrightarrow> length (seg xs lo hi) = nat (hi - lo + 1)"
  by (auto simp: seg_def)

lemma seg_alt:
  "0 \<le> lo \<Longrightarrow> lo \<le> hi + 1 \<Longrightarrow> seg xs lo hi = drop (nat lo) (take (nat (hi + 1)) xs)"
proof -
  assume a: "0 \<le> lo" "lo \<le> hi + 1"
  have "nat (hi + 1) = nat lo + nat (hi - lo + 1)" using a by simp
  then show ?thesis by (simp add: seg_def drop_take)
qed

lemma seg_split:
  assumes "0 \<le> lo" "lo \<le> p + 1" "p \<le> hi"
  shows "seg xs lo hi = seg xs lo p @ seg xs (p + 1) hi"
proof -
  have n: "nat (hi - lo + 1) = nat (p - lo + 1) + nat (hi - (p + 1) + 1)" using assms by simp
  have d: "drop (nat (p - lo + 1)) (drop (nat lo) xs) = drop (nat (p + 1)) xs"
    using assms by (simp add: nat_add_distrib [symmetric])
  show ?thesis unfolding seg_def n take_add d ..
qed

lemma seg_middle:
  assumes "length pre = nat lo" "0 \<le> lo" "int (length mid) = hi - lo + 1"
  shows "seg (pre @ mid @ post) lo hi = mid"
  using assms by (simp add: seg_def)

lemma merge_c_eq:
  assumes "0 \<le> start" "start \<le> pivot + 1" "pivot \<le> end" "end < int (length es)"
  shows "merge_c es start end pivot =
           Some (take (nat start) es
                 @ bitonic_merge (seg es start pivot @ rev (seg es (pivot + 1) end))
                 @ drop (nat (end + 1)) es)"
proof -
  define n where "n = pivot - start + 1"
  define len where "len = end - start + 1"
  define w0 where "w0 = replicate (nat len) (None :: edge option)"
  define L where "L = seg es start pivot"
  define R where "R = seg es (pivot + 1) end"
  define w1 where "w1 = map Some L @ drop (nat n) w0"
  define w2 where "w2 = map Some L @ rev (map Some R)"
  have lL: "length L = nat n" using assms by (simp add: length_seg L_def n_def)
  have lR: "length R = nat (end - pivot)" using assms by (simp add: length_seg R_def)
  have lw0: "length w0 = nat len" by (simp add: w0_def)
  have nlen: "0 \<le> n" "n \<le> len" "len = n + (end - pivot)" using assms by (simp_all add: n_def len_def)
  have "for_each [0 .. n - 1]
              (\<lambda>j w. do { e \<leftarrow> arr_get es (start + j); mem_set w j e }) w0
        = Some (take (nat 0) w0 @ map Some (seg es (start + 0) (start + n - 1)) @ drop (nat n) w0)"
    using assms nlen lw0 by (intro for_each_copy_forward) (simp_all add: n_def)
  moreover have "seg es (start + 0) (start + n - 1) = L" by (simp add: L_def n_def)
  ultimately have c1: "for_each [0 .. pivot - start]
              (\<lambda>j w. do { e \<leftarrow> arr_get es (start + j); mem_set w j e }) w0 = Some w1"
    by (simp add: w1_def n_def)
  have lw1: "length w1 = nat len" using lL lw0 nlen by (simp add: w1_def)
  have weq: "end + pivot - start + 1 = end + n" by (simp add: n_def)
  have "for_each [pivot + 1 .. end]
              (\<lambda>i w. do { e \<leftarrow> arr_get es i; mem_set w (end + n - i) e }) w1
            = Some (take (nat n) w1 @ rev (map Some (seg es (pivot + 1) end))
                    @ drop (nat (end + n - (pivot + 1) + 1)) w1)"
    using assms nlen lw1 by (intro for_each_copy_reverse) (simp_all add: n_def len_def)
  moreover have "take (nat n) w1 = map Some L" using lL by (simp add: w1_def)
  moreover have "drop (nat (end + n - (pivot + 1) + 1)) w1 = []"
    using lw1 nlen by simp
  ultimately have c2: "for_each [pivot + 1 .. end]
              (\<lambda>i w. do { e \<leftarrow> arr_get es i; mem_set w (end + pivot - start + 1 - i) e }) w1
            = Some w2"
    unfolding weq by (simp add: w2_def R_def)
  have w2: "w2 = [] @ map Some (L @ rev R) @ []" by (simp add: w2_def rev_map)
  have lx: "int (length (L @ rev R)) = end - start + 1" using lL lR nlen by (simp add: len_def)
  have "\<exists>l r. for_each [start .. end] (merge_step w2) (es, 0, 0 + int (length (L @ rev R)) - 1)
         = Some (take (nat start) es @ bitonic_merge (L @ rev R) @ drop (nat (end + 1)) es, l, r)"
    using w2 lx assms by (intro for_each_merge_step) simp_all
  moreover have "0 + int (length (L @ rev R)) - 1 = end - start" using lx by simp
  ultimately obtain l r where c3: "for_each [start .. end] (merge_step w2) (es, 0, end - start)
         = Some (take (nat start) es @ bitonic_merge (L @ rev R) @ drop (nat (end + 1)) es, l, r)"
    by auto
  have ok: "\<not> (end - start + 1 < 0 \<or> pivot - start + 1 < 0)" using assms by simp
  have c0: "replicate (nat (end - start + 1)) (None :: edge option) = w0" by (simp add: w0_def len_def)
  show ?thesis
    unfolding merge_c_def Let_def using ok by (simp add: c0 c1 c2 c3 L_def [symmetric] R_def [symmetric])
qed

lemma sdiv2_nonneg: "0 \<le> (a::int) \<Longrightarrow> a sdiv 2 = a div 2"
  by (simp add: signed_divide_int_def sgn_if)

lemma mergeSort_Some_le:
  assumes "mergeSort es s e = Some y"
  shows "s \<le> e"
proof (rule mergeSort.raw_induct [where P = "\<lambda>es s e y. s \<le> e", OF _ assms])
  fix f :: "edge list \<Rightarrow> int \<Rightarrow> int \<Rightarrow> edge list option" and es s e y
  assume IH: "\<And>es s e y. f es s e = Some y \<Longrightarrow> s \<le> e"
    and body: "(if s \<noteq> e
                then let pivot = (s + e) sdiv 2
                     in f es s pivot \<bind>
                        (\<lambda>edgeList1. f edgeList1 (pivot + 1) e \<bind>
                           (\<lambda>edgeList2. merge_c edgeList2 s e pivot))
                else Some es) = Some y"
  show "s \<le> e"
  proof (cases "s = e")
    case True
    then show ?thesis by simp
  next
    case False
    with body obtain es1 es2 where
      a: "f es s ((s + e) sdiv 2) = Some es1" and
      b: "f es1 ((s + e) sdiv 2 + 1) e = Some es2"
      by (auto simp: Let_def split: bind_splits)
    from IH [OF a] IH [OF b] show ?thesis by simp
  qed
qed

lemma mergeSort_sorts:
  assumes "0 \<le> lo" "lo \<le> hi" "hi < int (length es)"
  shows "\<exists>es'. mergeSort es lo hi = Some es' \<and> length es' = length es
           \<and> take (nat lo) es' = take (nat lo) es
           \<and> drop (nat (hi + 1)) es' = drop (nat (hi + 1)) es
           \<and> mset (seg es' lo hi) = mset (seg es lo hi)
           \<and> sorted (map e_weight (seg es' lo hi))"
  using assms
proof (induction "nat (hi - lo)" arbitrary: lo hi es rule: less_induct)
  case less
  show ?case
  proof (cases "lo = hi")
    case True
    have "length (seg es lo hi) = 1" using less.prems True by (simp add: length_seg)
    then obtain x where "seg es lo hi = [x]" by (cases "seg es lo hi") auto
    then show ?thesis using True by (subst mergeSort.simps) simp
  next
    case False
    define p where "p = (lo + hi) sdiv 2"
    have p: "lo \<le> p" "p < hi" using less.prems False by (simp_all add: p_def sdiv2_nonneg)
    obtain es1 where 1: "mergeSort es lo p = Some es1" "length es1 = length es"
      "take (nat lo) es1 = take (nat lo) es" "drop (nat (p + 1)) es1 = drop (nat (p + 1)) es"
      "mset (seg es1 lo p) = mset (seg es lo p)" "sorted (map e_weight (seg es1 lo p))"
      using less.hyps [of p lo es] less.prems p by auto
    obtain es2 where 2: "mergeSort es1 (p + 1) hi = Some es2" "length es2 = length es1"
      "take (nat (p + 1)) es2 = take (nat (p + 1)) es1" "drop (nat (hi + 1)) es2 = drop (nat (hi + 1)) es1"
      "mset (seg es2 (p + 1) hi) = mset (seg es1 (p + 1) hi)" "sorted (map e_weight (seg es2 (p + 1) hi))"
      using less.hyps [of hi "p + 1" es1] less.prems p 1(2) by auto
    define M where "M = bitonic_merge (seg es2 lo p @ rev (seg es2 (p + 1) hi))"
    define es3 where "es3 = take (nat lo) es2 @ M @ drop (nat (hi + 1)) es2"
    have 3: "merge_c es2 lo hi p = Some es3"
      unfolding es3_def M_def using less.prems p 1(2) 2(2) by (intro merge_c_eq) simp_all
    have ms: "mergeSort es lo hi = Some es3"
      using False 1(1) 2(1) 3 by (subst mergeSort.simps) (simp add: p_def [symmetric])
    have s21: "seg es2 lo p = seg es1 lo p"
      using p less.prems 2(3) by (simp add: seg_alt)
    have s1: "seg es1 (p + 1) hi = seg es (p + 1) hi"
      using 1(4) by (simp add: seg_def)
    have bit: "bitonic (seg es2 lo p @ rev (seg es2 (p + 1) hi))"
      unfolding bitonic_def using 1(6) 2(6) s21 by auto
    have lM: "length M = nat (hi - lo + 1)"
    proof -
      have "length M = length (seg es2 lo p) + length (seg es2 (p + 1) hi)"
        unfolding M_def by (metis mset_bitonic_merge size_mset length_append length_rev)
      then show ?thesis using less.prems p 1(2) 2(2) by (simp add: length_seg)
    qed
    have len: "length es3 = length es" using lM less.prems 1(2) 2(2) by (simp add: es3_def)
    have tk: "take (nat lo) es3 = take (nat lo) es"
    proof -
      have "take (nat lo) es3 = take (nat lo) es2" using less.prems 1(2) 2(2) by (simp add: es3_def)
      also have "\<dots> = take (nat lo) (take (nat (p + 1)) es2)" using p by (simp add: min_def)
      also have "\<dots> = take (nat lo) es1" using 2(3) p by (simp add: min_def)
      finally show ?thesis using 1(3) by simp
    qed
    have dr: "drop (nat (hi + 1)) es3 = drop (nat (hi + 1)) es"
    proof -
      have "drop (nat (hi + 1)) es3 = drop (nat (hi + 1)) es2"
        using lM less.prems 1(2) 2(2) by (simp add: es3_def)
      also have "\<dots> = drop (nat (hi + 1)) es1" using 2(4) .
      also have "\<dots> = drop (nat (hi - p)) (drop (nat (p + 1)) es1)"
        using p less.prems by (simp add: nat_add_distrib [symmetric])
      also have "\<dots> = drop (nat (hi + 1)) es"
        using p less.prems 1(4) by (simp add: nat_add_distrib [symmetric])
      finally show ?thesis .
    qed
    have sg: "seg es3 lo hi = M"
      unfolding es3_def using lM less.prems 1(2) 2(2) by (intro seg_middle) simp_all
    have "mset M = mset (seg es2 lo p) + mset (seg es2 (p + 1) hi)"
      by (simp add: M_def mset_bitonic_merge)
    also have "\<dots> = mset (seg es lo p) + mset (seg es (p + 1) hi)"
      using s21 s1 1(5) 2(5) by simp
    also have "\<dots> = mset (seg es lo hi)"
      using seg_split [of lo p hi es] less.prems p by simp
    finally have mM: "mset M = mset (seg es lo hi)" .
    have "sorted (map e_weight M)" unfolding M_def using bit by (rule sorted_bitonic_merge)
    with ms len tk dr sg mM show ?thesis by simp
  qed
qed


text \<open>
  C6. On a segment \<open>[lo..hi]\<close> of the edge list whose parts \<open>[lo..pivot]\<close> and
  \<open>[pivot+1..hi]\<close> are sorted by weight, \<^verbatim>\<open>merge\<close> returns, changes nothing outside the
  segment, and leaves in it a permutation of its edges sorted by weight: the list
  \<open>bitonic_merge\<close> makes of the left part followed by the reversed right part. Whenever
  the next edge of the left part and the next edge of the right part have the same weight,
  the edge of the left part is written first. Consequently \<^verbatim>\<open>mergeSort\<close> returns on every
  segment \<open>lo \<le> hi\<close> of the list and sorts it by weight, again as a permutation and
  without touching the rest.
\<close>

theorem merge_sorts_segment:
  "(0 \<le> lo \<and> lo \<le> pivot + 1 \<and> pivot \<le> hi \<and> hi < int (length es)
      \<and> sorted (map e_weight (seg es lo pivot)) \<and> sorted (map e_weight (seg es (pivot + 1) hi))
    \<longrightarrow> (\<exists>es'. merge_c es lo hi pivot = Some es' \<and> length es' = length es
           \<and> take (nat lo) es' = take (nat lo) es
           \<and> drop (nat (hi + 1)) es' = drop (nat (hi + 1)) es
           \<and> seg es' lo hi = bitonic_merge (seg es lo pivot @ rev (seg es (pivot + 1) hi))
           \<and> mset (seg es' lo hi) = mset (seg es lo hi)
           \<and> sorted (map e_weight (seg es' lo hi))))
   \<and> (\<forall>a ls b rs. e_weight a = e_weight b
          \<longrightarrow> bitonic_merge ((a # ls) @ rev (b # rs)) = a # bitonic_merge (ls @ rev (b # rs)))
   \<and> (0 \<le> lo \<and> lo \<le> hi \<and> hi < int (length es)
    \<longrightarrow> (\<exists>es'. mergeSort es lo hi = Some es' \<and> length es' = length es
           \<and> take (nat lo) es' = take (nat lo) es
           \<and> drop (nat (hi + 1)) es' = drop (nat (hi + 1)) es
           \<and> mset (seg es' lo hi) = mset (seg es lo hi)
           \<and> sorted (map e_weight (seg es' lo hi))))"
proof (intro conjI impI allI)
  assume h0: "0 \<le> lo \<and> lo \<le> pivot + 1 \<and> pivot \<le> hi \<and> hi < int (length es)
      \<and> sorted (map e_weight (seg es lo pivot)) \<and> sorted (map e_weight (seg es (pivot + 1) hi))"
  then have h: "0 \<le> lo" "lo \<le> pivot + 1" "pivot \<le> hi" "hi < int (length es)"
      "sorted (map e_weight (seg es lo pivot))" "sorted (map e_weight (seg es (pivot + 1) hi))"
    by simp_all
  define M where "M = bitonic_merge (seg es lo pivot @ rev (seg es (pivot + 1) hi))"
  define es' where "es' = take (nat lo) es @ M @ drop (nat (hi + 1)) es"
  have m: "merge_c es lo hi pivot = Some es'"
    unfolding es'_def M_def using h by (intro merge_c_eq) simp_all
  have lM: "length M = nat (hi - lo + 1)"
  proof -
    have "length M = length (seg es lo pivot) + length (seg es (pivot + 1) hi)"
      unfolding M_def by (metis mset_bitonic_merge size_mset length_append length_rev)
    then show ?thesis using h by (simp add: length_seg)
  qed
  have len: "length es' = length es" using lM h by (simp add: es'_def)
  have tk: "take (nat lo) es' = take (nat lo) es" using h by (simp add: es'_def)
  have dr: "drop (nat (hi + 1)) es' = drop (nat (hi + 1)) es" using lM h by (simp add: es'_def)
  have sg: "seg es' lo hi = M"
    unfolding es'_def using lM h by (intro seg_middle) simp_all
  have "mset M = mset (seg es lo pivot) + mset (seg es (pivot + 1) hi)"
    by (simp add: M_def mset_bitonic_merge)
  also have "\<dots> = mset (seg es lo hi)"
    using seg_split [of lo pivot hi es] h by simp
  finally have mM: "mset M = mset (seg es lo hi)" .
  have "bitonic (seg es lo pivot @ rev (seg es (pivot + 1) hi))"
    unfolding bitonic_def using h by auto
  then have "sorted (map e_weight M)" unfolding M_def by (rule sorted_bitonic_merge)
  with m len tk dr sg mM
  show "\<exists>es'. merge_c es lo hi pivot = Some es' \<and> length es' = length es
           \<and> take (nat lo) es' = take (nat lo) es
           \<and> drop (nat (hi + 1)) es' = drop (nat (hi + 1)) es
           \<and> seg es' lo hi = bitonic_merge (seg es lo pivot @ rev (seg es (pivot + 1) hi))
           \<and> mset (seg es' lo hi) = mset (seg es lo hi)
           \<and> sorted (map e_weight (seg es' lo hi))"
    by (simp add: M_def)
next
  fix a ls b rs
  assume "e_weight a = e_weight b"
  then show "bitonic_merge ((a # ls) @ rev (b # rs)) = a # bitonic_merge (ls @ rev (b # rs))"
    by (subst bitonic_merge.simps) simp
next
  assume "0 \<le> lo \<and> lo \<le> hi \<and> hi < int (length es)"
  then show "\<exists>es'. mergeSort es lo hi = Some es' \<and> length es' = length es
           \<and> take (nat lo) es' = take (nat lo) es
           \<and> drop (nat (hi + 1)) es' = drop (nat (hi + 1)) es
           \<and> mset (seg es' lo hi) = mset (seg es lo hi)
           \<and> sorted (map e_weight (seg es' lo hi))"
    by (intro mergeSort_sorts) simp_all
qed

theorem merge_sorts_segment_witness:
  "merge_c [(0, 1, 3), (1, 2, 5), (0, 3, 3), (2, 3, 4)] 0 3 1
     = Some [(0, 1, 3), (0, 3, 3), (2, 3, 4), (1, 2, 5)]
   \<and> (\<exists>es'. mergeSort [(0, 1, 5), (1, 2, 3), (0, 3, 4), (2, 3, 1)] 0 3 = Some es'
          \<and> sorted (map e_weight (seg es' 0 3)))"
proof -
  let ?es = "[(0, 1, 3), (1, 2, 5), (0, 3, 3), (2, 3, 4)] :: edge list"
  let ?fs = "[(0, 1, 5), (1, 2, 3), (0, 3, 4), (2, 3, 1)] :: edge list"
  have h1: "0 \<le> (0::int) \<and> (0::int) \<le> 1 + 1 \<and> (1::int) \<le> 3 \<and> 3 < int (length ?es)
      \<and> sorted (map e_weight (seg ?es 0 1)) \<and> sorted (map e_weight (seg ?es (1 + 1) 3))"
    by (simp add: seg_def e_weight_def)
  have h2: "0 \<le> (0::int) \<and> (0::int) \<le> 3 \<and> 3 < int (length ?fs)" by simp
  have a: "merge_c ?es 0 3 1 = Some [(0, 1, 3), (0, 3, 3), (2, 3, 4), (1, 2, 5)]"
    by code_simp
  from merge_sorts_segment [of 0 1 3 ?es] h1
  have "\<exists>es'. merge_c ?es 0 3 1 = Some es'" by blast
  moreover from merge_sorts_segment [of 0 1 3 ?fs] h2
  have "\<exists>es'. mergeSort ?fs 0 3 = Some es' \<and> sorted (map e_weight (seg es' 0 3))" by blast
  ultimately show ?thesis using a by simp
qed

section \<open>Properties of the binary min-heap\<close>

text \<open>
  C3. The position index after popping the last remaining element. \<^verbatim>\<open>popBinaryMinHeap\<close>
  first writes \<^verbatim>\<open>UNSET_ELEMENT\<close> into the slot of the popped vertex, then copies the last
  entry to index 0 and writes position 0 for the vertex found there. With one entry in
  the heap that vertex is the popped one: the heap ends empty with the popped vertex
  still indexed at position 0, not \<^verbatim>\<open>UNSET_ELEMENT\<close>.
\<close>

theorem popBinaryMinHeap_last_element_position:
  "map_option (\<lambda>(heap, out). (bh_size heap, bh_positions heap, out))
     (pushBinaryMinHeap (newBinaryMinHeap 1) 0 INT_MAX INT_MAX \<bind> popBinaryMinHeap)
   = Some (0, [Some 0], 0, INT_MAX, INT_MAX)"
  by code_simp

section \<open>Properties of the Fibonacci min-heap\<close>

text \<open>
  C10. \<^verbatim>\<open>popFibonacciMinHeap\<close> on a heap whose minimum is \<^verbatim>\<open>NULL\<close> returns at once: the heap
  (size, minimum, positions and every node) is unchanged, and the output parameters keep
  the content they had.
\<close>

theorem popFibonacciMinHeap_empty:
  "fh_minimum heap = None \<Longrightarrow> popFibonacciMinHeap heap out = Some (heap, out)"
  by (simp add: popFibonacciMinHeap_def)

theorem popFibonacciMinHeap_empty_witness:
  "fh_minimum (newFibonacciMinHeap 3) = None
   \<and> popFibonacciMinHeap (newFibonacciMinHeap 3) (7, 8, 9) = Some (newFibonacciMinHeap 3, (7, 8, 9))"
proof -
  have h: "fh_minimum (newFibonacciMinHeap 3) = None"
    by (simp add: newFibonacciMinHeap_def)
  from h popFibonacciMinHeap_empty [OF h, of "(7, 8, 9)"] show ?thesis by simp
qed

text \<open>
  C8. A heap that the public operations reach: five pushes (vertices 0 to 4, weights 0,
  10, 20, 30, 40) and one pop leave the tree 1 - (2, 3 - (4)). Decreasing vertex 4 to
  weight 5 cuts node 4 and marks its parent, node 3, which is not a root. Cutting node 3
  then moves it into the root list and clears its parent pointer, but its
  \<^verbatim>\<open>marked\<close> flag stays set: \<^verbatim>\<open>cutFibonacciMinHeap\<close> clears the flag only of a parent
  it cuts in cascade, after the recursive call.
\<close>

definition marked_child_heap :: "FibonacciMinHeap option" where
  "marked_child_heap = do {
     h0 \<leftarrow> pushFibonacciMinHeap (newFibonacciMinHeap 5) 0 0 0;
     h1 \<leftarrow> pushFibonacciMinHeap h0 1 0 10;
     h2 \<leftarrow> pushFibonacciMinHeap h1 2 0 20;
     h3 \<leftarrow> pushFibonacciMinHeap h2 3 0 30;
     h4 \<leftarrow> pushFibonacciMinHeap h3 4 0 40;
     (h5, out) \<leftarrow> popFibonacciMinHeap h4 (0, 0, 0);
     decreaseFibonacciMinHeap h5 4 3 5
   }"

theorem cutFibonacciMinHeap_keeps_marked:
  "map_option (\<lambda>e. (fe_parent e, fe_marked e, fe_childrens e))
     (marked_child_heap \<bind> (\<lambda>h. deref (fh_mem h) (Some 3)))
     = Some (Some 1, True, 0)
   \<and> map_option (\<lambda>e. (fe_parent e, fe_marked e, fe_left e, fe_right e))
     (marked_child_heap \<bind> (\<lambda>h. cutFibonacciMinHeap h (Some 3))
                        \<bind> (\<lambda>h. deref (fh_mem h) (Some 3)))
     = Some (None, True, Some 1, Some 4)"
  unfolding marked_child_heap_def by code_simp

section \<open>Properties of the MST algorithms\<close>

text \<open>
  C1. The graph with one vertex and no edge is connected and simple, and the claim
  promises an MST of 0 edges for it. \<^verbatim>\<open>mstKruskal\<close> sorts first: \<^verbatim>\<open>sort\<close> calls
  \<^verbatim>\<open>mergeSort(edgeList, 0, -1)\<close>, whose only base case is \<^verbatim>\<open>start == end\<close>; the pivot is
  \<open>(0 + -1) / 2 = 0\<close>, the second recursive call is \<^verbatim>\<open>mergeSort(edgeList, 1, -1)\<close>, which
  calls \<^verbatim>\<open>mergeSort(edgeList, 1, 0)\<close>, which calls itself forever. Kruskal's algorithm
  never returns on this graph.
\<close>

theorem mstKruskal_single_vertex_diverges:
  "mstKruskal \<lparr>g_edges = 0, g_vertices = 1, g_edgeList = []\<rparr> (newWeightedGraph 1 (1 - 1)) = None"
proof -
  have "mergeSort [] 0 (- 1) = None"
  proof (cases "mergeSort [] 0 (- 1)")
    case None
    then show ?thesis .
  next
    case (Some y)
    then have "(0::int) \<le> - 1" by (rule mergeSort_Some_le)
    then show ?thesis by simp
  qed
  then show ?thesis
    by (simp add: mstKruskal_def sort_c_def chunkSize_def)
qed










lemma length_reset [simp]: "length (reset_closest ce) = length ce"
  by (simp add: reset_closest_def)



















fun ceil_log2 :: "nat \<Rightarrow> nat" where
  "ceil_log2 n = (if n \<le> 1 then 0 else Suc (ceil_log2 ((n + 1) div 2)))"


declare ceil_log2.simps [simp del]


lemma ceil_log2_least: "n \<le> 2 ^ k \<Longrightarrow> ceil_log2 n \<le> k"
proof (induction n arbitrary: k rule: ceil_log2.induct)
  case (1 n)
  show ?case
  proof (cases "n \<le> 1")
    case True
    then show ?thesis by (subst ceil_log2.simps) simp
  next
    case False
    then obtain k' where k: "k = Suc k'" using 1(2) by (cases k) auto
    then have "(n + 1) div 2 \<le> 2 ^ k'" using 1(2) by simp
    with 1(1) False have "ceil_log2 ((n + 1) div 2) \<le> k'" by simp
    then show ?thesis using False k by (subst ceil_log2.simps) simp
  qed
qed











section \<open>The heap order of the binary min-heap\<close>



lemma mem_set_range: "mem_set xs i x = Some ys \<Longrightarrow> 0 \<le> i \<and> i < int (length xs) \<and> ys = xs[nat i := Some x]"
  by (auto simp: mem_set_def arr_set_def split: if_splits)




text \<open>
  The entries of a binary heap as functions of the index and of the vertex, and what the
  operations keep: the first \<open>n\<close> slots are written, every vertex in them has a position
  slot, the weights are in heap order, and the position of every entry is its index.
\<close>

definition wt :: "BinaryMinHeap \<Rightarrow> int \<Rightarrow> int" where
  "wt h i = be_weight (the (mem_get (bh_elements h) i))"












declare heapifyBinaryMinHeap.simps [simp del] heapifyDownBinaryMinHeap.simps [simp del]




















section \<open>Pushes and decreases, then pops\<close>










section \<open>The pointer structure of the Fibonacci min-heap\<close>















text \<open>
  A circular doubly linked list: \<open>ring R L xs\<close> says that the addresses \<open>xs\<close>, in this
  order, are linked by the right pointers \<open>R\<close> and backwards by the left pointers \<open>L\<close>,
  the last one to the first.
\<close>

fun path :: "(nat \<Rightarrow> pointer) \<Rightarrow> (nat \<Rightarrow> pointer) \<Rightarrow> nat list \<Rightarrow> bool" where
  "path R L [] = True"
| "path R L [a] = True"
| "path R L (a # b # r) = (R a = Some b \<and> L b = Some a \<and> path R L (b # r))"














text \<open>
  The shape of the heap: a forest whose nodes are addresses. The children of a node are
  listed in the order of their ring, starting at the child pointer of the node.
\<close>

datatype tree = Node nat "tree list"

fun root :: "tree \<Rightarrow> nat" where
  "root (Node a ts) = a"

fun nodes :: "tree \<Rightarrow> nat list" where
  "nodes (Node a ts) = a # concat (map nodes ts)"

definition forest :: "tree list \<Rightarrow> nat list" where
  "forest ts = concat (map nodes ts)"

















fun kids :: "tree \<Rightarrow> tree list" where
  "kids (Node a ts) = ts"


lemma nodes_kids: "u \<in> set (kids t) \<Longrightarrow> set (nodes u) \<subseteq> set (forest (kids t))"
  by (auto simp: forest_def)




















































































end
